theory Spec2Isabelle
  imports Complex_Main "HOL-Library.Sublist" "HOL-Library.Log_Nat"
begin

section \<open>The batch downloader of \<open>process_videos.py\<close>\<close>

text \<open>
  A shallow embedding of the downloader core: the tracking ledger, the size prober, the
  download worker with its stall detection and retry, and the batch scheduler.

  Python strings are lists of characters (code points below 256). Wall-clock readings
  (\<open>time.time()\<close>) and the speed computed from them are exact rationals. The progress
  percentage is the double-precision number that Python computes, rounding included.
  What the network and the clock do is an explicit input of the model; what the code
  does to the file system and which delays it sleeps is recorded in a \<open>world\<close> value
  that is passed through.
\<close>

subsection \<open>Configuration constants\<close>

definition CHUNK_TIMEOUT :: rat where
  "CHUNK_TIMEOUT = 1800"

definition MAX_RETRIES :: nat where
  "MAX_RETRIES = 5"

definition RETRY_DELAY :: nat where
  "RETRY_DELAY = 300"

definition MAX_CONCURRENT_DOWNLOADS :: nat where
  "MAX_CONCURRENT_DOWNLOADS = 2"

definition RATE_LIMIT_DELAY :: nat where
  "RATE_LIMIT_DELAY = 60"

definition SPEED_CHECK_INTERVAL :: rat where
  "SPEED_CHECK_INTERVAL = 60"

definition MIN_SPEED_BYTES_PER_SECOND :: rat where
  "MIN_SPEED_BYTES_PER_SECOND = 1024"

subsection \<open>Strings: \<open>str.strip\<close>, text-mode line iteration, \<open>str.split\<close>\<close>

definition LF :: char where
  "LF = CHR 0x0A"

definition CR :: char where
  "CR = CHR 0x0D"

text \<open>The characters below 256 for which \<open>str.isspace\<close> holds.\<close>

definition is_space :: "char \<Rightarrow> bool" where
  "is_space c = (c \<in> set [CHR 0x09, CHR 0x0A, CHR 0x0B, CHR 0x0C, CHR 0x0D,
     CHR 0x1C, CHR 0x1D, CHR 0x1E, CHR 0x1F, CHR 0x20, CHR 0x85, CHR 0xA0])"

text \<open>\<open>s.strip()\<close>: leading and trailing whitespace removed.\<close>

definition strip :: "string \<Rightarrow> string" where
  "strip s = rev (dropWhile is_space (rev (dropWhile is_space s)))"

text \<open>
  A file opened with \<open>open(path, 'r')\<close> is read with universal newlines: \<open>\r\n\<close> and a
  lone \<open>\r\<close> both arrive as \<open>\n\<close>. The flag says that the previous character was \<open>\r\<close>.
\<close>

fun universal_newlines :: "bool \<Rightarrow> string \<Rightarrow> string" where
  "universal_newlines after_cr [] = []"
| "universal_newlines after_cr (c # cs) =
     (if c = CR then LF # universal_newlines True cs
      else if c = LF \<and> after_cr then universal_newlines False cs
      else c # universal_newlines False cs)"

text \<open>
  \<open>for line in f\<close>: the lines of the text, each with its terminating \<open>\n\<close>; a last
  line without terminator is yielded when it is not empty.
\<close>

fun file_lines :: "string \<Rightarrow> string list" where
  "file_lines [] = []"
| "file_lines (c # cs) =
     (if c = LF then [c] # file_lines cs
      else (case file_lines cs of
              [] \<Rightarrow> [[c]]
            | l # ls \<Rightarrow> (c # l) # ls))"

definition read_text_lines :: "string \<Rightarrow> string list" where
  "read_text_lines txt = file_lines (universal_newlines False txt)"

text \<open>\<open>[line.strip() for line in f if line.strip()]\<close>\<close>

definition stripped_lines :: "string \<Rightarrow> string list" where
  "stripped_lines txt = filter (\<lambda>l. l \<noteq> []) (map strip (read_text_lines txt))"

text \<open>\<open>s.split(sep)\<close> for a one-character separator: never an empty list.\<close>

fun split_on :: "char \<Rightarrow> string \<Rightarrow> string list" where
  "split_on sep [] = [[]]"
| "split_on sep (c # cs) =
     (if c = sep then [] # split_on sep cs
      else (case split_on sep cs of
              [] \<Rightarrow> [[c]]
            | s # ss \<Rightarrow> (c # s) # ss))"

text \<open>\<open>os.path.basename\<close> (POSIX): what follows the last slash.\<close>

definition basename :: "string \<Rightarrow> string" where
  "basename p = rev (takeWhile (\<lambda>c. c \<noteq> CHR ''/'') (rev p))"

definition is_url :: "string \<Rightarrow> bool" where
  "is_url path = (prefix ''http://'' path \<or> prefix ''https://'' path)"

definition get_filename :: "string \<Rightarrow> string" where
  "get_filename path =
     (if is_url path then last (split_on CHR ''/'' path) else basename path)"

subsection \<open>The world: download directory, tracking ledger, effects\<close>

datatype effect =
    Slept nat
  | Requested nat
  | Wrote string string
  | Marked string

text \<open>
  \<open>files\<close> is the download directory by file name, \<open>ledger\<close> the text of
  \<open>downloaded.txt\<close> (\<open>None\<close> when the file does not exist), \<open>trace\<close> the effects in the
  order they happened: each \<open>asyncio.sleep\<close> with its seconds, each \<open>session.get\<close> with
  the attempt index, each \<open>f.write\<close> with file name and chunk, each ledger append.
\<close>

record world =
  files :: "string \<Rightarrow> string option"
  ledger :: "string option"
  trace :: "effect list"

definition get_downloaded_files :: "world \<Rightarrow> string set" where
  "get_downloaded_files w =
     (case ledger w of
        None \<Rightarrow> {}
      | Some txt \<Rightarrow> set (stripped_lines txt))"

definition ledger_text :: "world \<Rightarrow> string" where
  "ledger_text w = (case ledger w of None \<Rightarrow> [] | Some txt \<Rightarrow> txt)"

text \<open>\<open>open(DOWNLOADED_FILE, 'a')\<close> creates a missing file; the entry is \<open>\n\<close> and the name.\<close>

definition mark_as_downloaded :: "string \<Rightarrow> world \<Rightarrow> world" where
  "mark_as_downloaded filename w =
     w\<lparr>ledger := Some (ledger_text w @ LF # filename),
       trace := trace w @ [Marked filename]\<rparr>"

definition sleep :: "nat \<Rightarrow> world \<Rightarrow> world" where
  "sleep seconds w = w\<lparr>trace := trace w @ [Slept seconds]\<rparr>"

subsection \<open>Size prober\<close>

text \<open>
  The exceptions the handlers of the code tell apart: \<open>aiohttp.ClientError\<close>,
  \<open>asyncio.TimeoutError\<close> and any other \<open>Exception\<close>. A timeout carries the place
  that raised it: the network (\<open>asyncio.wait_for\<close>, the client's total timeout), the
  speed monitor or the progress monitor. No handler looks at the place.
\<close>

datatype timeout_cause = NetworkTimeout | SlowSpeed | NoProgress

datatype exn = ClientError | TimeoutError timeout_cause | OtherError

text \<open>
  What the outside can raise into the code: an \<open>aiohttp.ClientError\<close> (connection
  reset, payload error), an \<open>asyncio.TimeoutError\<close>, or any other \<open>Exception\<close>
  (\<open>OSError\<close> from a write, for one).
\<close>

datatype fault = ConnectionFault | TimeoutFault | OtherFault

fun raised :: "fault \<Rightarrow> exn" where
  "raised ConnectionFault = ClientError"
| "raised TimeoutFault = TimeoutError NetworkTimeout"
| "raised OtherFault = OtherError"

text \<open>
  A header value as \<open>int(response.headers.get(name, 0))\<close> sees it: missing, a decimal
  integer, or text that \<open>int\<close> rejects with \<open>ValueError\<close>.
\<close>

datatype header = Absent | Number int | Malformed

datatype response = Raises fault | Response int header

definition parse_length :: "header \<Rightarrow> exn + int" where
  "parse_length h =
     (case h of
        Absent \<Rightarrow> Inr 0
      | Number n \<Rightarrow> Inr n
      | Malformed \<Rightarrow> Inl OtherError)"

text \<open>
  \<open>get_expected_file_size\<close>, given what \<open>session.head(url)\<close> does. Every exception is
  caught by \<open>except Exception\<close>, and the function falls through to \<open>return None\<close>.
\<close>

definition get_expected_file_size :: "response \<Rightarrow> int option" where
  "get_expected_file_size head =
     (case head of
        Raises e \<Rightarrow> None
      | Response status h \<Rightarrow>
          (if status = 200 then
             (case parse_length h of
                Inl e \<Rightarrow> None
              | Inr n \<Rightarrow> (if n > 0 then Some n else None))
           else None))"

subsection \<open>Download worker: one chunk\<close>

text \<open>
  The local variables of the streaming loop. \<open>speeds_logged\<close> is the sequence of
  throughput samples that the loop writes to the log (\<open>Download speed for ...\<close>), in
  bytes per second.
\<close>

record dl_state =
  downloaded :: nat
  last_speed_check :: rat
  last_bytes_downloaded :: nat
  last_progress :: rat
  last_progress_time :: rat
  stall_count :: nat
  speeds_logged :: "rat list"

definition init_state :: "rat \<Rightarrow> dl_state" where
  "init_state start_time =
     \<lparr>downloaded = 0, last_speed_check = start_time, last_bytes_downloaded = 0,
      last_progress = 0, last_progress_time = start_time, stall_count = 0,
      speeds_logged = []\<rparr>"

text \<open>
  \<open>expected_size and downloaded < expected_size\<close>, where \<open>expected_size\<close> is
  \<open>file_sizes.get(filename)\<close>: \<open>None\<close> and \<open>0\<close> are false.
\<close>

definition incomplete :: "int option \<Rightarrow> nat \<Rightarrow> bool" where
  "incomplete expected_size n =
     (case expected_size of
        None \<Rightarrow> False
      | Some e \<Rightarrow> e \<noteq> 0 \<and> int n < e)"

text \<open>The speed monitor, run after each chunk with the clock reading \<open>current_time\<close>.\<close>

definition check_speed :: "int option \<Rightarrow> rat \<Rightarrow> dl_state \<Rightarrow> exn option \<times> dl_state" where
  "check_speed expected_size current_time s =
     (if current_time - last_speed_check s \<ge> SPEED_CHECK_INTERVAL then
        (let bytes_since_last_check = int (downloaded s) - int (last_bytes_downloaded s);
             speed = of_int bytes_since_last_check / (current_time - last_speed_check s);
             s1 = s\<lparr>speeds_logged := speeds_logged s @ [speed]\<rparr>
         in if speed < MIN_SPEED_BYTES_PER_SECOND then
              (let s2 = s1\<lparr>stall_count := stall_count s1 + 1\<rparr>
               in if stall_count s2 \<ge> 3 \<and> incomplete expected_size (downloaded s2)
                  then (Some (TimeoutError SlowSpeed), s2)
                  else (None, s2\<lparr>last_speed_check := current_time,
                                 last_bytes_downloaded := downloaded s2\<rparr>))
            else (None, s1\<lparr>stall_count := 0, last_speed_check := current_time,
                            last_bytes_downloaded := downloaded s1\<rparr>))
      else (None, s))"

text \<open>
  Double-precision arithmetic, as far as the percentage needs it. A double is the
  rational it denotes. \<open>float_round\<close> rounds a rational to the nearest number with a
  significand of 53 bits, ties to the even significand, which is what IEEE 754 division
  and multiplication return and what Python's \<open>int / int\<close> returns; overflow and
  subnormal numbers do not occur for byte counts.
\<close>

definition pow2 :: "int \<Rightarrow> rat" where
  "pow2 k = (if 0 \<le> k then 2 ^ nat k else 1 / 2 ^ nat (- k))"

text \<open>The exponent of the highest power of 2 that is at most \<open>x\<close>, for positive \<open>x\<close>.\<close>

definition floor_log2 :: "rat \<Rightarrow> int" where
  "floor_log2 x =
     (if 1 \<le> x then bitlen \<lfloor>x\<rfloor> - 1 else - bitlen (\<lceil>1 / x\<rceil> - 1))"

definition round_half_even :: "rat \<Rightarrow> int" where
  "round_half_even x =
     (let n = \<lfloor>x\<rfloor>; r = x - of_int n
      in if r < 1 / 2 then n
         else if r > 1 / 2 then n + 1
         else if even n then n else n + 1)"

definition float_round :: "rat \<Rightarrow> rat" where
  "float_round x =
     (if x = 0 then 0
      else (let a = \<bar>x\<bar>;
                e = floor_log2 a - 52;
                m = round_half_even (a / pow2 e)
            in sgn x * of_int m * pow2 e))"

text \<open>\<open>(downloaded / total_size) * 100\<close>: a division of integers, then a product of doubles.\<close>

definition progress_percent :: "nat \<Rightarrow> int \<Rightarrow> rat" where
  "progress_percent downloaded_bytes total_size =
     float_round (float_round (of_nat downloaded_bytes / of_int total_size) * 100)"

text \<open>
  The progress monitor, run after the speed monitor with a fresh clock reading.
  \<open>int(progress)\<close> truncates; \<open>progress\<close> is not negative here.
\<close>

definition check_progress ::
  "int option \<Rightarrow> int \<Rightarrow> rat \<Rightarrow> dl_state \<Rightarrow> exn option \<times> dl_state" where
  "check_progress expected_size total_size current_time s =
     (if total_size > 0 then
        (let progress = progress_percent (downloaded s) total_size
         in if \<lfloor>progress\<rfloor> > \<lfloor>last_progress s\<rfloor> then
              (None, s\<lparr>last_progress := progress, last_progress_time := current_time\<rparr>)
            else if current_time - last_progress_time s > CHUNK_TIMEOUT then
              (if incomplete expected_size (downloaded s) then
                 (let s1 = s\<lparr>stall_count := stall_count s + 1\<rparr>
                  in if stall_count s1 \<ge> 3 then (Some (TimeoutError NoProgress), s1)
                     else (None, s1))
               else (None, s))
            else (None, s))
      else (None, s))"

subsection \<open>Download worker: the streaming loop\<close>

text \<open>
  What one iteration of \<open>while True\<close> meets: a chunk, with the clock readings of the
  two \<open>time.time()\<close> calls that follow it, or an exception raised by the read or by
  the write. After the last event the stream is at its end and the read returns
  \<open>b''\<close>; an empty chunk is that same end of stream. The client's total timeout bounds
  the number of reads of one request.
\<close>

datatype read_event = Chunk string rat rat | ReadRaises fault

definition write_chunk :: "string \<Rightarrow> string \<Rightarrow> world \<Rightarrow> world" where
  "write_chunk filename chunk w =
     w\<lparr>files := (files w)(filename \<mapsto>
          (case files w filename of None \<Rightarrow> [] | Some old \<Rightarrow> old) @ chunk),
       trace := trace w @ [Wrote filename chunk]\<rparr>"

fun read_loop ::
  "string \<Rightarrow> int option \<Rightarrow> int \<Rightarrow> read_event list \<Rightarrow> dl_state \<Rightarrow> world
     \<Rightarrow> exn option \<times> dl_state \<times> world" where
  "read_loop filename expected_size total_size [] s w = (None, s, w)"
| "read_loop filename expected_size total_size (ReadRaises e # rest) s w =
     (Some (raised e), s, w)"
| "read_loop filename expected_size total_size (Chunk chunk t1 t2 # rest) s w =
     (if chunk = [] then (None, s, w)
      else
        (let w1 = write_chunk filename chunk w;
             s1 = s\<lparr>downloaded := downloaded s + length chunk\<rparr>
         in case check_speed expected_size t1 s1 of
              (Some e, s2) \<Rightarrow> (Some e, s2, w1)
            | (None, s2) \<Rightarrow>
                (case check_progress expected_size total_size t2 s2 of
                   (Some e, s3) \<Rightarrow> (Some e, s3, w1)
                 | (None, s3) \<Rightarrow>
                     read_loop filename expected_size total_size rest s3 w1)))"

subsection \<open>Download worker: attempts and retry\<close>

text \<open>
  What the outside does during the call of \<open>download_video\<close> with a given
  \<open>retry_count\<close>: the clock at entry, the outcome of \<open>session.get\<close>, what
  \<open>open(output_path, 'wb')\<close> raises if it raises, and the reads. An \<open>OSError\<close> from
  \<open>open\<close> is an \<open>OtherFault\<close>; from Python 3.11 on \<open>asyncio.TimeoutError\<close> is the
  builtin \<open>TimeoutError\<close>, so an \<open>open\<close> that fails with a timeout is a \<open>TimeoutFault\<close>.
\<close>

record attempt =
  start_time :: rat
  get_response :: response
  open_fault :: "fault option"
  reads :: "read_event list"

text \<open>\<open>file_sizes\<close> is the content of \<open>file_sizes.json\<close> (empty when the file is missing).\<close>

record env =
  net :: "nat \<Rightarrow> attempt"
  file_sizes :: "string \<Rightarrow> int option"

definition request :: "nat \<Rightarrow> world \<Rightarrow> world" where
  "request retry_count w = w\<lparr>trace := trace w @ [Requested retry_count]\<rparr>"

definition open_wb :: "string \<Rightarrow> world \<Rightarrow> world" where
  "open_wb filename w = w\<lparr>files := (files w)(filename \<mapsto> [])\<rparr>"

text \<open>
  The body of the \<open>try\<close> statement of \<open>download_video\<close>: \<open>Inr b\<close> is \<open>return b\<close>,
  \<open>Inl e\<close> an exception that reaches the handlers.
\<close>

definition try_body :: "env \<Rightarrow> string \<Rightarrow> nat \<Rightarrow> world \<Rightarrow> (exn + bool) \<times> world" where
  "try_body ev filename retry_count w =
     (let a = net ev retry_count;
          w1 = (if retry_count = 0 then sleep RATE_LIMIT_DELAY w else w);
          w2 = request retry_count w1
      in case get_response a of
           Raises e \<Rightarrow> (Inl (raised e), w2)
         | Response status h \<Rightarrow>
             (if status = 200 then
                (case parse_length h of
                   Inl e \<Rightarrow> (Inl e, w2)
                 | Inr total_size \<Rightarrow>
                     (case open_fault a of
                        Some f \<Rightarrow> (Inl (raised f), w2)
                      | None \<Rightarrow>
                          (case read_loop filename (file_sizes ev filename) total_size
                                  (reads a) (init_state (start_time a)) (open_wb filename w2) of
                             (Some e, s, w3) \<Rightarrow> (Inl e, w3)
                           | (None, s, w3) \<Rightarrow>
                               (Inr True, mark_as_downloaded filename w3))))
              else (Inr False, w2)))"

text \<open>The exceptions of \<open>except (aiohttp.ClientError, asyncio.TimeoutError)\<close>.\<close>

fun retryable :: "exn \<Rightarrow> bool" where
  "retryable ClientError = True"
| "retryable (TimeoutError c) = True"
| "retryable OtherError = False"

function download_video :: "env \<Rightarrow> string \<Rightarrow> nat \<Rightarrow> world \<Rightarrow> bool \<times> world" where
  "download_video ev filename retry_count w =
     (case try_body ev filename retry_count w of
        (Inr b, w1) \<Rightarrow> (b, w1)
      | (Inl e, w1) \<Rightarrow>
          (if retryable e then
             (if retry_count < MAX_RETRIES - 1 then
                download_video ev filename (retry_count + 1)
                  (sleep (RETRY_DELAY * 2 ^ retry_count) w1)
              else (False, w1))
           else (False, w1)))"
  by pat_completeness auto
termination
  by (relation "measure (\<lambda>(ev, filename, retry_count, w). MAX_RETRIES - 1 - retry_count)")
     auto

subsection \<open>Batch scheduler\<close>

datatype sched = Gather "string list" | Pace nat

text \<open>
  The loop \<open>for i in range(0, len(video_urls), MAX_CONCURRENT_DOWNLOADS)\<close>: the group
  \<open>video_urls[i:i + MAX_CONCURRENT_DOWNLOADS]\<close> is gathered, and awaited, before
  anything that follows it in the list.
\<close>

function batches :: "string list \<Rightarrow> nat \<Rightarrow> sched list" where
  "batches video_urls i =
     (if i < length video_urls then
        Gather (take MAX_CONCURRENT_DOWNLOADS (drop i video_urls))
          # (if i + MAX_CONCURRENT_DOWNLOADS < length video_urls
             then [Pace RATE_LIMIT_DELAY] else [])
          @ batches video_urls (i + MAX_CONCURRENT_DOWNLOADS)
      else [])"
  by pat_completeness auto
termination
  by (relation "measure (\<lambda>(video_urls, i). length video_urls - i)")
     (auto simp: MAX_CONCURRENT_DOWNLOADS_def)

text \<open>\<open>xs[:limit]\<close>: a negative limit counts from the end.\<close>

definition slice_to :: "int \<Rightarrow> 'a list \<Rightarrow> 'a list" where
  "slice_to limit xs =
     (if limit \<ge> 0 then take (nat limit) xs
      else take (nat (int (length xs) + limit)) xs)"

text \<open>The work list after the two filters of \<open>download_videos\<close>.\<close>

definition new_urls :: "world \<Rightarrow> string \<Rightarrow> string list" where
  "new_urls w download_list =
     (let downloaded_files = get_downloaded_files w;
          video_urls = stripped_lines download_list;
          video_urls = filter is_url video_urls
      in filter (\<lambda>url. get_filename url \<notin> downloaded_files) video_urls)"

text \<open>
  \<open>download_videos\<close>, as the groups it hands to the workers and the delays between
  them. A missing \<open>download_list.txt\<close> (\<open>None\<close>) makes \<open>open\<close> raise.
\<close>

definition download_videos :: "world \<Rightarrow> string option \<Rightarrow> int option \<Rightarrow> exn + sched list" where
  "download_videos w download_list limit =
     (case download_list of
        None \<Rightarrow> Inl OtherError
      | Some txt \<Rightarrow>
          (let video_urls = new_urls w txt
           in if video_urls = [] then Inr []
              else
                (let video_urls =
                       (case limit of None \<Rightarrow> video_urls | Some n \<Rightarrow> slice_to n video_urls)
                 in Inr (batches video_urls 0))))"

subsection \<open>Observations on traces, streams, plans and ledger texts\<close>

text \<open>The attempt indices requested, the seconds slept, in the order of the trace.\<close>

fun requests :: "effect list \<Rightarrow> nat list" where
  "requests [] = []"
| "requests (Requested k # es) = k # requests es"
| "requests (e # es) = requests es"

fun sleeps :: "effect list \<Rightarrow> nat list" where
  "sleeps [] = []"
| "sleeps (Slept d # es) = d # sleeps es"
| "sleeps (e # es) = sleeps es"

text \<open>The chunks a stream delivers before its end or its first exception.\<close>

fun delivered :: "read_event list \<Rightarrow> string list" where
  "delivered [] = []"
| "delivered (ReadRaises e # rest) = []"
| "delivered (Chunk chunk t1 t2 # rest) = (if chunk = [] then [] else chunk # delivered rest)"

text \<open>The groups of a plan and the pacing delays of a plan, in order.\<close>

fun groups :: "sched list \<Rightarrow> string list list" where
  "groups [] = []"
| "groups (Gather g # plan) = g # groups plan"
| "groups (Pace d # plan) = groups plan"

fun pacing :: "sched list \<Rightarrow> nat list" where
  "pacing [] = []"
| "pacing (Gather g # plan) = pacing plan"
| "pacing (Pace d # plan) = d # pacing plan"

text \<open>The non-empty stripped lines of a text whose newlines are already translated.\<close>

definition entries :: "string \<Rightarrow> string set" where
  "entries zs = set (filter (\<lambda>l. l \<noteq> []) (map strip (file_lines zs)))"

text \<open>How many of the latest logged throughput samples are below the minimum speed.\<close>

definition low_run :: "rat list \<Rightarrow> nat" where
  "low_run speeds = length (takeWhile (\<lambda>v. v < MIN_SPEED_BYTES_PER_SECOND) (rev speeds))"

text \<open>
  What holds of the loop state while no speed abort has happened: the stall counter
  is at least the number of latest low samples, and three latest low samples only
  occur when the file is not incomplete.
\<close>

definition stall_inv :: "int option \<Rightarrow> dl_state \<Rightarrow> bool" where
  "stall_inv ex s \<longleftrightarrow> low_run (speeds_logged s) \<le> stall_count s
     \<and> (3 \<le> low_run (speeds_logged s) \<longrightarrow> \<not> incomplete ex (downloaded s))"

subsection \<open>Sample inputs\<close>

text \<open>Nothing downloaded, no ledger file, nothing done yet.\<close>

definition empty_world :: world where
  "empty_world = \<lparr>files = (\<lambda>name. None), ledger = None, trace = []\<rparr>"

definition no_sizes :: "string \<Rightarrow> int option" where
  "no_sizes = (\<lambda>name. None)"

text \<open>Attempts: a download of five bytes in two chunks, a request that raises, and a
  response with a given status.\<close>

definition two_chunks :: attempt where
  "two_chunks = \<lparr>start_time = 0, get_response = Response 200 (Number 5), open_fault = None,
     reads = [Chunk ''abc'' 1 1, Chunk ''de'' 2 2]\<rparr>"

definition refused :: "fault \<Rightarrow> attempt" where
  "refused e = \<lparr>start_time = 0, get_response = Raises e, open_fault = None, reads = []\<rparr>"

definition answers :: "int \<Rightarrow> attempt" where
  "answers status = \<lparr>start_time = 0, get_response = Response status (Number 5), open_fault = None,
     reads = [Chunk ''abc'' 1 1, Chunk ''de'' 2 2]\<rparr>"

text \<open>A download list of five URLs, and a ledger with the file names \<open>1\<close> and \<open>3\<close>.\<close>

definition five_urls :: string where
  "five_urls = ''http://h/1'' @ [LF] @ ''http://h/2'' @ [LF] @ ''http://h/3'' @ [LF]
     @ ''http://h/4'' @ [LF] @ ''http://h/5'' @ [LF]"

definition two_done :: world where
  "two_done = \<lparr>files = (\<lambda>name. None), ledger = Some (LF # ''1'' @ LF # ''3''), trace = []\<rparr>"

text \<open>
  Streams of one-byte chunks with their clock readings: three slow samples; one slow
  sample, a chunk after the progress deadline and another slow sample; chunks after
  the progress deadline. The last stream brings 1 MiB per chunk, fast enough for
  every sample.
\<close>

definition three_slow_reads :: "read_event list" where
  "three_slow_reads = [Chunk ''a'' 100 100, Chunk ''b'' 200 200, Chunk ''c'' 300 300]"

definition slow_then_stuck :: "read_event list" where
  "slow_then_stuck = [Chunk ''a'' 1790 1790, Chunk ''b'' 1801 1801, Chunk ''c'' 1850 1850]"

definition stuck_reads :: "read_event list" where
  "stuck_reads = [Chunk ''a'' 1830 1830, Chunk ''b'' 1840 1840, Chunk ''c'' 1850 1850]"

definition mebibyte :: string where
  "mebibyte = replicate 1048576 (CHR ''x'')"

definition fast_reads :: "read_event list" where
  "fast_reads = [Chunk mebibyte 60 60, Chunk mebibyte 100 100, Chunk mebibyte 1801 1801]"

text \<open>
  The loop state after a first chunk of 28 bytes out of 100, read 10 seconds after the
  start: 28 percent were logged then.
\<close>

definition after_28_of_100 :: dl_state where
  "after_28_of_100 =
     \<lparr>downloaded = 28, last_speed_check = 0, last_bytes_downloaded = 0,
      last_progress = progress_percent 28 100, last_progress_time = 10, stall_count = 0,
      speeds_logged = []\<rparr>"

section \<open>Properties\<close>

subsection \<open>Traces, the streaming loop and one attempt\<close>

declare download_video.simps [simp del]

lemma requests_append: "requests (xs @ ys) = requests xs @ requests ys"
  by (induction xs rule: requests.induct) auto

lemma sleeps_append: "sleeps (xs @ ys) = sleeps xs @ sleeps ys"
  by (induction xs rule: sleeps.induct) auto

lemma requests_Wrote: "requests (map (Wrote f) ws) = []"
  by (induction ws) auto

lemma sleeps_Wrote: "sleeps (map (Wrote f) ws) = []"
  by (induction ws) auto

lemma check_speed_downloaded:
  "check_speed ex t s = (r, s') \<Longrightarrow> downloaded s' = downloaded s"
  by (auto simp: check_speed_def Let_def split: if_splits)

lemma check_progress_downloaded:
  "check_progress ex tot t s = (r, s') \<Longrightarrow> downloaded s' = downloaded s"
  by (auto simp: check_progress_def Let_def split: if_splits)

lemma write_chunk_simps:
  "trace (write_chunk fn c w) = trace w @ [Wrote fn c]"
  "ledger (write_chunk fn c w) = ledger w"
  "files w fn = Some old \<Longrightarrow> files (write_chunk fn c w) = (files w)(fn \<mapsto> old @ c)"
  by (auto simp: write_chunk_def)

lemma read_loop_world:
  "read_loop fn ex tot evs s w = (r, s', w') \<Longrightarrow> files w fn = Some old \<Longrightarrow>
   \<exists>ws. prefix ws (delivered evs) \<and> (r = None \<longrightarrow> ws = delivered evs)
     \<and> trace w' = trace w @ map (Wrote fn) ws
     \<and> files w' = (files w)(fn \<mapsto> old @ concat ws)
     \<and> ledger w' = ledger w
     \<and> downloaded s' = downloaded s + length (concat ws)"
proof (induction fn ex tot evs s w arbitrary: old rule: read_loop.induct)
  case (1 filename expected_size total_size s w)
  then show ?case by (auto simp: fun_upd_idem)
next
  case (2 filename expected_size total_size e rest s w)
  then show ?case by (auto simp: fun_upd_idem)
next
  case (3 filename expected_size total_size chunk t1 t2 rest s w)
  show ?case
  proof (cases "chunk = []")
    case True
    with 3 show ?thesis by (auto simp: fun_upd_idem)
  next
    case False
    obtain r1 s2 where cs: "check_speed expected_size t1 (s\<lparr>downloaded := downloaded s + length chunk\<rparr>) = (r1, s2)"
      by (cases "check_speed expected_size t1 (s\<lparr>downloaded := downloaded s + length chunk\<rparr>)")
    obtain r2 s3 where cp: "check_progress expected_size total_size t2 s2 = (r2, s3)"
      by (cases "check_progress expected_size total_size t2 s2")
    let ?w1 = "write_chunk filename chunk w"
    have d2: "downloaded s2 = downloaded s + length chunk"
      using check_speed_downloaded[OF cs] by simp
    have d3: "downloaded s3 = downloaded s + length chunk"
      using check_progress_downloaded[OF cp] d2 by simp
    have f1: "files ?w1 filename = Some (old @ chunk)"
      using "3.prems"(2) by (simp add: write_chunk_simps)
    show ?thesis
    proof (cases "r1 = None \<and> r2 = None")
      case True
      then have rl: "read_loop filename expected_size total_size rest s3 ?w1 = (r, s', w')"
        using "3.prems"(1) False cs cp by (simp add: Let_def)
      from True have r1: "r1 = None" and r2: "r2 = None" by simp_all
      from "3.IH"[OF False refl refl cs[symmetric] r1 cp[symmetric] r2 rl f1]
      obtain ws where ws: "prefix ws (delivered rest)" "r = None \<longrightarrow> ws = delivered rest"
        "trace w' = trace ?w1 @ map (Wrote filename) ws"
        "files w' = (files ?w1)(filename \<mapsto> (old @ chunk) @ concat ws)"
        "ledger w' = ledger ?w1"
        "downloaded s' = downloaded s3 + length (concat ws)"
        by blast
      show ?thesis
        using ws False d3 "3.prems"(2)
        by (intro exI[of _ "chunk # ws"]) (simp add: write_chunk_simps)
    next
      case False
      then have "r \<noteq> None \<and> w' = ?w1 \<and> (s' = s2 \<or> s' = s3)"
        using "3.prems"(1) \<open>chunk \<noteq> []\<close> cs cp
        by (auto simp: Let_def split: option.splits)
      then show ?thesis
        using \<open>chunk \<noteq> []\<close> d2 d3 "3.prems"(2)
        by (intro exI[of _ "[chunk]"]) (auto simp: write_chunk_simps)
    qed
  qed
qed

lemma world_simps:
  "trace (sleep d w) = trace w @ [Slept d]" "ledger (sleep d w) = ledger w" "files (sleep d w) = files w"
  "trace (request k w) = trace w @ [Requested k]" "ledger (request k w) = ledger w" "files (request k w) = files w"
  "trace (open_wb fn w) = trace w" "ledger (open_wb fn w) = ledger w" "files (open_wb fn w) fn = Some []"
  "trace (mark_as_downloaded fn w) = trace w @ [Marked fn]"
  "ledger (mark_as_downloaded fn w) = Some (ledger_text w @ LF # fn)"
  "files (mark_as_downloaded fn w) = files w"
  "ledger_text (sleep d w) = ledger_text w" "ledger_text (request k w) = ledger_text w"
  "ledger_text (open_wb fn w) = ledger_text w"
  by (simp_all add: sleep_def request_def open_wb_def mark_as_downloaded_def ledger_text_def)

lemma ledger_text_cong: "ledger w' = ledger w \<Longrightarrow> ledger_text w' = ledger_text w"
  by (simp add: ledger_text_def)

lemma try_body_status:
  "get_response (net ev k) = Response status h \<Longrightarrow> status \<noteq> 200 \<Longrightarrow>
   try_body ev fn k w = (Inr False, request k (if k = 0 then sleep RATE_LIMIT_DELAY w else w))"
  by (simp add: try_body_def Let_def)

lemma try_body_raises:
  "get_response (net ev k) = Raises e \<Longrightarrow>
   try_body ev fn k w =
     (Inl (raised e), request k (if k = 0 then sleep RATE_LIMIT_DELAY w else w))"
  by (simp add: try_body_def Let_def)

lemma try_body_success:
  assumes "try_body ev fn k w = (Inr True, w')"
  shows "files w' fn = Some (concat (delivered (reads (net ev k))))"
    and "ledger w' = Some (ledger_text w @ LF # fn)"
    and "trace w' = trace w @ (if k = 0 then [Slept RATE_LIMIT_DELAY] else []) @ [Requested k]
            @ map (Wrote fn) (delivered (reads (net ev k))) @ [Marked fn]"
    and "\<exists>h. get_response (net ev k) = Response 200 h"
proof -
  let ?w2 = "request k (if k = 0 then sleep RATE_LIMIT_DELAY w else w)"
  let ?a = "net ev k"
  from assms obtain h tot s w3 where
    g: "get_response ?a = Response 200 h" and
    rl: "read_loop fn (file_sizes ev fn) tot (reads ?a) (init_state (start_time ?a)) (open_wb fn ?w2) = (None, s, w3)"
    and w': "w' = mark_as_downloaded fn w3"
    by (auto simp: try_body_def Let_def split: response.splits if_splits sum.splits prod.splits option.splits)
  from read_loop_world[OF rl, of "[]"] 
  have t: "trace w3 = trace (open_wb fn ?w2) @ map (Wrote fn) (delivered (reads ?a))"
    and f: "files w3 = (files (open_wb fn ?w2))(fn \<mapsto> concat (delivered (reads ?a)))"
    and l: "ledger w3 = ledger (open_wb fn ?w2)"
    by (auto simp: world_simps)
  show "files w' fn = Some (concat (delivered (reads (net ev k))))"
    using f w' by (simp add: world_simps)
  have "ledger_text w3 = ledger_text w"
    using l by (simp add: ledger_text_def world_simps)
  then show "ledger w' = Some (ledger_text w @ LF # fn)"
    using w' by (simp add: world_simps)
  show "trace w' = trace w @ (if k = 0 then [Slept RATE_LIMIT_DELAY] else []) @ [Requested k]
            @ map (Wrote fn) (delivered (reads (net ev k))) @ [Marked fn]"
    using t w' by (simp add: world_simps)
  show "\<exists>h. get_response (net ev k) = Response 200 h" using g by blast
qed

lemma try_body_trace:
  assumes "try_body ev fn k w = (r, w')"
  shows "requests (trace w') = requests (trace w) @ [k]"
    and "sleeps (trace w') = sleeps (trace w) @ (if k = 0 then [RATE_LIMIT_DELAY] else [])"
    and "r \<noteq> Inr True \<Longrightarrow> ledger w' = ledger w"
proof -
  let ?w2 = "request k (if k = 0 then sleep RATE_LIMIT_DELAY w else w)"
  let ?a = "net ev k"
  have base: "requests (trace ?w2) = requests (trace w) @ [k]"
    "sleeps (trace ?w2) = sleeps (trace w) @ (if k = 0 then [RATE_LIMIT_DELAY] else [])"
    "ledger ?w2 = ledger w"
    by (simp_all add: world_simps requests_append sleeps_append)
  have "(w' = ?w2) \<or> (\<exists>tot s w3 r'. read_loop fn (file_sizes ev fn) tot (reads ?a) (init_state (start_time ?a)) (open_wb fn ?w2) = (r', s, w3)
      \<and> ((r' \<noteq> None \<and> w' = w3 \<and> r \<noteq> Inr True) \<or> (r' = None \<and> w' = mark_as_downloaded fn w3 \<and> r = Inr True)))"
  proof (cases "\<exists>h tot. get_response ?a = Response 200 h \<and> parse_length h = Inr tot
      \<and> open_fault ?a = None")
    case False
    then have "w' = ?w2" using assms
      by (auto simp: try_body_def Let_def split: response.splits if_splits sum.splits)
    then show ?thesis by simp
  next
    case True
    then obtain h tot where g: "get_response ?a = Response 200 h" "parse_length h = Inr tot"
      "open_fault ?a = None"
      by blast
    obtain r' s w3 where rl: "read_loop fn (file_sizes ev fn) tot (reads ?a) (init_state (start_time ?a)) (open_wb fn ?w2) = (r', s, w3)"
      using prod_cases3 by blast
    have "(r' \<noteq> None \<and> w' = w3 \<and> r \<noteq> Inr True) \<or> (r' = None \<and> w' = mark_as_downloaded fn w3 \<and> r = Inr True)"
      using assms g rl by (cases r') (auto simp: try_body_def Let_def)
    then show ?thesis using rl by blast
  qed
  then consider (a) "w' = ?w2" | (b) tot s w3 r' where
     "read_loop fn (file_sizes ev fn) tot (reads ?a) (init_state (start_time ?a)) (open_wb fn ?w2) = (r', s, w3)"
     "(r' \<noteq> None \<and> w' = w3 \<and> r \<noteq> Inr True) \<or> (r' = None \<and> w' = mark_as_downloaded fn w3 \<and> r = Inr True)"
    by blast
  then have "requests (trace w') = requests (trace w) @ [k]
     \<and> sleeps (trace w') = sleeps (trace w) @ (if k = 0 then [RATE_LIMIT_DELAY] else [])
     \<and> (r \<noteq> Inr True \<longrightarrow> ledger w' = ledger w)"
  proof cases
    case a
    then show ?thesis using base by simp
  next
    case b
    from read_loop_world[OF b(1), of "[]"] obtain ws where
      "trace w3 = trace (open_wb fn ?w2) @ map (Wrote fn) ws" "ledger w3 = ledger (open_wb fn ?w2)"
      by (auto simp: world_simps)
    then have "requests (trace w3) = requests (trace w) @ [k]"
      "sleeps (trace w3) = sleeps (trace w) @ (if k = 0 then [RATE_LIMIT_DELAY] else [])"
      "ledger w3 = ledger w"
      using base by (simp_all add: world_simps requests_append sleeps_append requests_Wrote sleeps_Wrote)
    then show ?thesis using b(2)
      by (auto simp: world_simps requests_append sleeps_append)
  qed
  then show "requests (trace w') = requests (trace w) @ [k]"
    and "sleeps (trace w') = sleeps (trace w) @ (if k = 0 then [RATE_LIMIT_DELAY] else [])"
    and "r \<noteq> Inr True \<Longrightarrow> ledger w' = ledger w"
    by simp_all
qed

lemma read_loop_extends:
  "read_loop fn ex tot evs s w = (r, s', w') \<Longrightarrow> \<exists>tr. trace w' = trace w @ tr"
proof (induction evs arbitrary: s w)
  case Nil
  then show ?case by simp
next
  case (Cons ev evs)
  show ?case
  proof (cases ev)
    case (ReadRaises e)
    with Cons.prems show ?thesis by simp
  next
    case (Chunk c t1 t2)
    with Cons.prems show ?thesis
      by (auto simp: Let_def write_chunk_simps(1) split: if_splits prod.splits option.splits
          dest!: Cons.IH)
  qed
qed

lemma try_body_extends:
  "try_body ev fn k w = (r, w') \<Longrightarrow> \<exists>tr. trace w' = trace w @ tr"
  by (auto simp: try_body_def Let_def world_simps split: response.splits if_splits sum.splits prod.splits option.splits
      dest!: read_loop_extends)

lemma download_video_return:
  "try_body ev fn k w = (Inr b, w1) \<Longrightarrow> download_video ev fn k w = (b, w1)"
  by (simp add: download_video.simps)

lemma download_video_give_up:
  "try_body ev fn k w = (Inl e, w1) \<Longrightarrow> \<not> (retryable e \<and> k < MAX_RETRIES - 1) \<Longrightarrow>
   download_video ev fn k w = (False, w1)"
  by (auto simp add: download_video.simps)

lemma download_video_retry:
  "try_body ev fn k w = (Inl e, w1) \<Longrightarrow> retryable e \<Longrightarrow> k < MAX_RETRIES - 1 \<Longrightarrow>
   download_video ev fn k w = download_video ev fn (Suc k) (sleep (RETRY_DELAY * 2 ^ k) w1)"
  by (simp add: download_video.simps)

lemma download_video_schedule:
  "download_video ev fn k w = (b, w') \<Longrightarrow>
   \<exists>n. 1 \<le> n \<and> (k + n \<le> MAX_RETRIES \<or> n = 1)
     \<and> requests (trace w') = requests (trace w) @ [k..<k + n]
     \<and> sleeps (trace w') = sleeps (trace w) @ (if k = 0 then [RATE_LIMIT_DELAY] else [])
           @ map (\<lambda>j. RETRY_DELAY * 2 ^ j) [k..<k + n - 1]"
proof (induction ev fn k w arbitrary: b w' rule: download_video.induct)
  case (1 ev fn k w)
  obtain r w1 where tb: "try_body ev fn k w = (r, w1)"
    by (cases "try_body ev fn k w")
  note tr = try_body_trace(1,2)[OF tb]
  show ?case
  proof (cases "\<exists>e. r = Inl e \<and> retryable e \<and> k < MAX_RETRIES - 1")
    case False
    have "w' = w1"
    proof (cases r)
      case (Inl e)
      with False have "\<not> (retryable e \<and> k < MAX_RETRIES - 1)" by simp
      from download_video_give_up[OF tb[unfolded Inl] this] "1.prems" show ?thesis by simp
    next
      case (Inr b0)
      from download_video_return[OF tb[unfolded Inr]] "1.prems" show ?thesis by simp
    qed
    then show ?thesis using tr by (intro exI[of _ 1]) simp
  next
    case True
    then obtain e where e: "r = Inl e" "retryable e" "k < MAX_RETRIES - 1" by blast
    let ?w2 = "sleep (RETRY_DELAY * 2 ^ k) w1"
    have dv: "download_video ev fn (k + 1) ?w2 = (b, w')"
      using "1.prems" download_video_retry[OF tb[unfolded e(1)] e(2,3)] by simp
    from "1.IH"[OF tb[symmetric] e dv] obtain n where n: "1 \<le> n" "k + 1 + n \<le> MAX_RETRIES \<or> n = 1"
      "requests (trace w') = requests (trace ?w2) @ [k + 1..<k + 1 + n]"
      "sleeps (trace w') = sleeps (trace ?w2) @ (if k + 1 = 0 then [RATE_LIMIT_DELAY] else [])
           @ map (\<lambda>j. RETRY_DELAY * 2 ^ j) [k + 1..<k + 1 + n - 1]"
      by blast
    have up: "[k..<k + Suc n] = k # [k + 1..<k + 1 + n]"
      by (simp add: upt_conv_Cons)
    have up2: "[k..<k + Suc n - 1] = k # [k + 1..<k + 1 + n - 1]"
      using n(1) by (simp add: upt_conv_Cons)
    have "k + Suc n \<le> MAX_RETRIES"
      using n(2) e(3) by auto
    moreover have "requests (trace w') = requests (trace w) @ [k..<k + Suc n]"
    proof -
      have "requests (trace ?w2) = requests (trace w) @ [k]"
        using tr(1) by (simp add: world_simps requests_append)
      then show ?thesis unfolding n(3) up by simp
    qed
    moreover have "sleeps (trace w') = sleeps (trace w) @ (if k = 0 then [RATE_LIMIT_DELAY] else [])
           @ map (\<lambda>j. RETRY_DELAY * 2 ^ j) [k..<k + Suc n - 1]"
    proof -
      have "sleeps (trace ?w2) = sleeps (trace w) @ (if k = 0 then [RATE_LIMIT_DELAY] else []) @ [RETRY_DELAY * 2 ^ k]"
        using tr(2) by (simp add: world_simps sleeps_append)
      then show ?thesis unfolding n(4) up2 by simp
    qed
    ultimately show ?thesis
      by (intro exI[of _ "Suc n"]) simp
  qed
qed

lemma download_video_ledger:
  "download_video ev fn k w = (b, w') \<Longrightarrow>
   (\<not> b \<longrightarrow> ledger w' = ledger w) \<and>
   (b \<longrightarrow> (\<exists>j pre. k \<le> j \<and> (j < MAX_RETRIES \<or> j = k)
        \<and> (\<exists>h. get_response (net ev j) = Response 200 h)
        \<and> files w' fn = Some (concat (delivered (reads (net ev j))))
        \<and> ledger w' = Some (ledger_text w @ LF # fn)
        \<and> trace w' = trace w @ pre @ Requested j # map (Wrote fn) (delivered (reads (net ev j))) @ [Marked fn]))"
proof (induction ev fn k w arbitrary: b w' rule: download_video.induct)
  case (1 ev fn k w)
  obtain r w1 where tb: "try_body ev fn k w = (r, w1)"
    by (cases "try_body ev fn k w")
  show ?case
  proof (cases "\<exists>e. r = Inl e \<and> retryable e \<and> k < MAX_RETRIES - 1")
    case False
    have "w' = w1 \<and> b = (r = Inr True)"
    proof (cases r)
      case (Inl e)
      with False have "\<not> (retryable e \<and> k < MAX_RETRIES - 1)" by simp
      from download_video_give_up[OF tb[unfolded Inl] this] "1.prems" Inl show ?thesis by simp
    next
      case (Inr b0)
      from download_video_return[OF tb[unfolded Inr]] "1.prems" Inr show ?thesis by auto
    qed
    then have w': "w' = w1" and b: "b = (r = Inr True)" by simp_all
    show ?thesis
    proof (cases b)
      case True
      then have tb': "try_body ev fn k w = (Inr True, w')" using tb w' b by simp
      show ?thesis using True try_body_success[OF tb']
        by (intro conjI impI exI[of _ k] exI[of _ "if k = 0 then [Slept RATE_LIMIT_DELAY] else []"]) simp_all
    next
      case False
      then show ?thesis using try_body_trace(3)[OF tb] b w' by simp
    qed
  next
    case True
    then obtain e where e: "r = Inl e" "retryable e" "k < MAX_RETRIES - 1" by blast
    let ?w2 = "sleep (RETRY_DELAY * 2 ^ k) w1"
    have dv: "download_video ev fn (k + 1) ?w2 = (b, w')"
      using "1.prems" download_video_retry[OF tb[unfolded e(1)] e(2,3)] by simp
    have l1: "ledger w1 = ledger w" using try_body_trace(3)[OF tb] e by simp
    then have l2: "ledger ?w2 = ledger w" "ledger_text ?w2 = ledger_text w"
      by (simp_all add: world_simps ledger_text_def)
    obtain mid where mid: "trace ?w2 = trace w @ mid"
      using try_body_extends[OF tb] by (auto simp: world_simps)
    note IH = "1.IH"[OF tb[symmetric] e dv]
    show ?thesis
    proof (cases b)
      case False
      then show ?thesis using IH l2 by simp
    next
      case True
      with IH obtain j pre where j: "k + 1 \<le> j" "j < MAX_RETRIES \<or> j = k + 1"
        "\<exists>h. get_response (net ev j) = Response 200 h"
        "files w' fn = Some (concat (delivered (reads (net ev j))))"
        "ledger w' = Some (ledger_text ?w2 @ LF # fn)"
        "trace w' = trace ?w2 @ pre @ Requested j # map (Wrote fn) (delivered (reads (net ev j))) @ [Marked fn]"
        by blast
      have "j < MAX_RETRIES" using j(2) e(3) by auto
      then show ?thesis using True j l2 mid
        by (intro conjI impI exI[of _ j] exI[of _ "mid @ pre"]) simp_all
    qed
  qed
qed

lemma requests_mem: "k \<in> set (requests tr) \<longleftrightarrow> Requested k \<in> set tr"
  by (induction tr rule: requests.induct) auto

subsection \<open>The batch scheduler\<close>

declare batches.simps [simp del]

lemma groups_append: "groups (xs @ ys) = groups xs @ groups ys"
  by (induction xs rule: groups.induct) auto

lemma pacing_append: "pacing (xs @ ys) = pacing xs @ pacing ys"
  by (induction xs rule: pacing.induct) auto

lemma batches_groups:
  "concat (groups (batches urls i)) = drop i urls
   \<and> list_all (\<lambda>g. 1 \<le> length g \<and> length g \<le> MAX_CONCURRENT_DOWNLOADS) (groups (batches urls i))
   \<and> length (groups (batches urls i)) = (length urls - i + 1) div 2
   \<and> pacing (batches urls i) = replicate (length (groups (batches urls i)) - 1) RATE_LIMIT_DELAY"
proof (induction urls i rule: batches.induct)
  case (1 video_urls i)
  show ?case
  proof (cases "i < length video_urls")
    case False
    then show ?thesis by (simp add: batches.simps[of video_urls i])
  next
    case True
    note IH = "1.IH"[OF True]
    let ?rest = "batches video_urls (i + MAX_CONCURRENT_DOWNLOADS)"
    have unf: "batches video_urls i = Gather (take MAX_CONCURRENT_DOWNLOADS (drop i video_urls))
          # (if i + MAX_CONCURRENT_DOWNLOADS < length video_urls
             then [Pace RATE_LIMIT_DELAY] else []) @ ?rest"
      using True by (simp add: batches.simps[of video_urls i])
    have g: "groups (batches video_urls i) = take MAX_CONCURRENT_DOWNLOADS (drop i video_urls) # groups ?rest"
      by (simp add: unf groups_append)
    have c: "concat (groups (batches video_urls i)) = drop i video_urls"
    proof -
      from IH have "concat (groups ?rest) = drop MAX_CONCURRENT_DOWNLOADS (drop i video_urls)"
        by (simp add: add.commute)
      then show ?thesis
        by (simp only: g concat.simps append_take_drop_id)
    qed
    have l: "list_all (\<lambda>g. 1 \<le> length g \<and> length g \<le> MAX_CONCURRENT_DOWNLOADS) (groups (batches video_urls i))"
      using IH True by (simp add: g MAX_CONCURRENT_DOWNLOADS_def)
    have n: "length (groups (batches video_urls i)) = (length video_urls - i + 1) div 2"
      using IH True by (simp add: g MAX_CONCURRENT_DOWNLOADS_def) arith
    have p: "pacing (batches video_urls i) = replicate (length (groups (batches video_urls i)) - 1) RATE_LIMIT_DELAY"
    proof (cases "i + MAX_CONCURRENT_DOWNLOADS < length video_urls")
      case False
      then have "length (groups ?rest) = 0" using IH by (simp add: MAX_CONCURRENT_DOWNLOADS_def)
      then show ?thesis using IH False by (simp add: unf pacing_append)
    next
      case True
      then have "length (groups ?rest) \<ge> 1" using IH by (simp add: MAX_CONCURRENT_DOWNLOADS_def)
      then obtain m where "length (groups ?rest) = Suc m" by (cases "length (groups ?rest)") auto
      then show ?thesis using IH True by (simp add: unf pacing_append)
    qed
    show ?thesis using c l n p by simp
  qed
qed

lemma batches_five:
  "batches [u1, u2, u3, u4, u5] 0 =
     [Gather [u1, u2], Pace RATE_LIMIT_DELAY, Gather [u3, u4], Pace RATE_LIMIT_DELAY, Gather [u5]]"
  by (simp add: batches.simps MAX_CONCURRENT_DOWNLOADS_def)

lemma five_new: "new_urls empty_world five_urls =
  [''http://h/1'', ''http://h/2'', ''http://h/3'', ''http://h/4'', ''http://h/5'']"
  by (simp add: new_urls_def five_urls_def empty_world_def get_downloaded_files_def stripped_lines_def
      read_text_lines_def LF_def CR_def strip_def is_space_def is_url_def Let_def)

lemma download_videos_handed:
  assumes "download_videos w list limit = Inr plan"
  shows "\<exists>listing. list = Some listing \<and> concat (groups plan) =
     (case limit of None \<Rightarrow> new_urls w listing | Some n \<Rightarrow> slice_to n (new_urls w listing))"
proof -
  from assms obtain listing where lst: "list = Some listing"
    by (cases list) (auto simp: download_videos_def)
  show ?thesis
  proof (cases "new_urls w listing = []")
    case True
    then have "plan = []" using assms lst by (simp add: download_videos_def)
    then show ?thesis using lst True by (simp add: slice_to_def split: option.splits)
  next
    case False
    then have "plan = batches (case limit of None \<Rightarrow> new_urls w listing | Some n \<Rightarrow> slice_to n (new_urls w listing)) 0"
      using assms lst by (auto simp: download_videos_def Let_def)
    then show ?thesis using lst batches_groups[of _ 0] by simp
  qed
qed

lemma slice_to_subset: "set (slice_to n xs) \<subseteq> set xs"
  by (auto simp: slice_to_def dest: in_set_takeD)

lemma two_done_files: "get_downloaded_files two_done = {''1'', ''3''}"
  by (auto simp add: two_done_def get_downloaded_files_def stripped_lines_def
      read_text_lines_def LF_def CR_def strip_def is_space_def)

lemma five_filenames:
  "get_filename ''http://h/1'' = ''1''" "get_filename ''http://h/2'' = ''2''"
  "get_filename ''http://h/3'' = ''3''" "get_filename ''http://h/4'' = ''4''"
  "get_filename ''http://h/5'' = ''5''"
  by (simp_all add: get_filename_def is_url_def)

lemma three_new: "new_urls two_done five_urls = [''http://h/2'', ''http://h/4'', ''http://h/5'']"
  by (simp add: new_urls_def two_done_files five_filenames Let_def)
     (simp add: five_urls_def stripped_lines_def
      read_text_lines_def LF_def CR_def strip_def is_space_def is_url_def five_filenames)

subsection \<open>Lines of the ledger\<close>

lemma file_lines_Nil_iff: "file_lines xs = [] \<longleftrightarrow> xs = []"
  by (cases xs) (auto split: list.splits)

lemma file_lines_LF_split:
  "file_lines (xs @ LF # ys) = file_lines (xs @ [LF]) @ file_lines ys"
proof (induction xs)
  case Nil
  show ?case by simp
next
  case (Cons c xs)
  have ne: "file_lines (xs @ [LF]) \<noteq> []" by (simp add: file_lines_Nil_iff)
  show ?case
  proof (cases "c = LF")
    case True
    then show ?thesis using Cons by simp
  next
    case False
    then show ?thesis using Cons ne
      by (cases "file_lines (xs @ [LF])") simp_all
  qed
qed

lemma file_lines_snoc_LF:
  "xs \<noteq> [] \<Longrightarrow> last xs \<noteq> LF \<Longrightarrow>
   file_lines (xs @ [LF]) = butlast (file_lines xs) @ [last (file_lines xs) @ [LF]]"
proof (induction xs)
  case Nil
  then show ?case by simp
next
  case (Cons c xs)
  show ?case
  proof (cases "xs = []")
    case True
    with Cons.prems show ?thesis by simp
  next
    case False
    with Cons.prems have l: "last xs \<noteq> LF" by simp
    note IH = Cons.IH[OF False l]
    have ne: "file_lines xs \<noteq> []" using False by (simp add: file_lines_Nil_iff)
    then obtain l0 ls where ls: "file_lines xs = l0 # ls" by (cases "file_lines xs") auto
    show ?thesis
    proof (cases "c = LF")
      case True
      then show ?thesis using IH ne by simp
    next
      case False
      then show ?thesis using IH ls by (cases ls) auto
    qed
  qed
qed

lemma is_space_LF: "is_space LF"
  by (simp add: is_space_def LF_def)

lemma dropWhile_all: "\<forall>x \<in> set xs. P x \<Longrightarrow> dropWhile P xs = []"
  by (induction xs) auto

lemma strip_snoc_LF: "strip (l @ [LF]) = strip l"
proof (cases "\<forall>c \<in> set l. is_space c")
  case True
  then have "\<forall>c \<in> set (l @ [LF]). is_space c" by (simp add: is_space_LF)
  then have d: "dropWhile is_space (l @ [LF]) = []" "dropWhile is_space l = []"
    using True by (simp_all only: dropWhile_all)
  show ?thesis by (simp only: strip_def d)
next
  case False
  then obtain x where "x \<in> set l" "\<not> is_space x" by blast
  then have "dropWhile is_space (l @ [LF]) = dropWhile is_space l @ [LF]"
    by (simp add: dropWhile_append1)
  then show ?thesis by (simp add: strip_def is_space_LF)
qed

lemma strip_LF: "strip [LF] = []"
  by (simp add: strip_def is_space_LF)

lemma entries_snoc_LF: "entries (zs @ [LF]) = entries zs"
proof (cases "zs = []")
  case True
  then show ?thesis by (simp add: entries_def strip_LF)
next
  case False
  show ?thesis
  proof (cases "last zs = LF")
    case True
    with False obtain ys where ys: "zs = ys @ [LF]"
      by (cases zs rule: rev_cases) auto
    have "file_lines (zs @ [LF]) = file_lines zs @ [[LF]]"
      unfolding ys using file_lines_LF_split[of ys "[LF]"] by simp
    then show ?thesis by (simp add: entries_def strip_LF)
  next
    case l: False
    have ne: "file_lines zs \<noteq> []" using False by (simp add: file_lines_Nil_iff)
    then obtain b l0 where bl: "file_lines zs = b @ [l0]"
      by (cases "file_lines zs" rule: rev_cases) auto
    have "file_lines (zs @ [LF]) = b @ [l0 @ [LF]]"
      using file_lines_snoc_LF[OF False l] by (simp add: bl)
    then show ?thesis by (simp add: entries_def bl strip_snoc_LF)
  qed
qed

lemma entries_LF_split: "entries (xs @ LF # ys) = entries xs \<union> entries ys"
proof -
  have "entries (xs @ LF # ys) = entries (xs @ [LF]) \<union> entries ys"
    unfolding entries_def by (subst file_lines_LF_split) simp
  then show ?thesis by (simp add: entries_snoc_LF)
qed

lemma universal_newlines_append:
  "universal_newlines b (xs @ zs) =
     universal_newlines b xs @ universal_newlines (if xs = [] then b else last xs = CR) zs"
  by (induction xs arbitrary: b) auto

lemma LF_neq_CR: "LF \<noteq> CR"
  by (simp add: LF_def CR_def)

lemma stripped_lines_entries: "set (stripped_lines s) = entries (universal_newlines False s)"
  by (simp add: stripped_lines_def read_text_lines_def entries_def)

lemma stripped_lines_LF_split:
  "set (stripped_lines (xs @ LF # ys)) = set (stripped_lines xs) \<union> set (stripped_lines ys)"
proof (cases "xs \<noteq> [] \<and> last xs = CR")
  case True
  then have xs: "xs = butlast xs @ [CR]" by (metis append_butlast_last_id)
  have "universal_newlines False xs = universal_newlines False (butlast xs) @ [LF]"
    using universal_newlines_append[of False "butlast xs" "[CR]"] xs by simp
  moreover have "universal_newlines False (xs @ LF # ys)
      = universal_newlines False xs @ universal_newlines False ys"
    using True by (simp add: universal_newlines_append LF_neq_CR)
  ultimately have "universal_newlines False (xs @ LF # ys)
      = universal_newlines False (butlast xs) @ LF # universal_newlines False ys"
    "entries (universal_newlines False xs) = entries (universal_newlines False (butlast xs))"
    by (simp_all add: entries_snoc_LF)
  then show ?thesis
    by (simp add: stripped_lines_entries entries_LF_split)
next
  case False
  then have "universal_newlines False (xs @ LF # ys)
      = universal_newlines False xs @ LF # universal_newlines False ys"
    by (auto simp: universal_newlines_append LF_neq_CR)
  then show ?thesis
    by (simp add: stripped_lines_entries entries_LF_split)
qed

lemma universal_newlines_id: "CR \<notin> set xs \<Longrightarrow> universal_newlines False xs = xs"
  by (induction xs) auto

lemma file_lines_single: "xs \<noteq> [] \<Longrightarrow> LF \<notin> set xs \<Longrightarrow> file_lines xs = [xs]"
proof (induction xs)
  case Nil
  then show ?case by simp
next
  case (Cons c xs)
  then show ?case by (cases "xs = []") auto
qed

lemma stripped_lines_name:
  "fn \<noteq> [] \<Longrightarrow> strip fn = fn \<Longrightarrow> LF \<notin> set fn \<Longrightarrow> CR \<notin> set fn \<Longrightarrow> stripped_lines fn = [fn]"
  by (simp add: stripped_lines_def read_text_lines_def universal_newlines_id file_lines_single)

lemma stripped_lines_Nil: "stripped_lines [] = []"
  by (simp add: stripped_lines_def read_text_lines_def)

lemma get_downloaded_files_mark:
  "get_downloaded_files (mark_as_downloaded fn w) = get_downloaded_files w \<union> set (stripped_lines fn)"
  by (cases "ledger w")
     (simp_all add: get_downloaded_files_def mark_as_downloaded_def ledger_text_def
        stripped_lines_LF_split[of "[]", simplified] stripped_lines_LF_split stripped_lines_Nil)

subsection \<open>The speed monitor and the progress monitor\<close>

lemma low_run_Nil: "low_run [] = 0"
  by (simp add: low_run_def)

lemma low_run_snoc:
  "low_run (speeds @ [v]) = (if v < MIN_SPEED_BYTES_PER_SECOND then Suc (low_run speeds) else 0)"
  by (simp add: low_run_def)

lemma incomplete_mono: "incomplete ex (d + n) \<Longrightarrow> incomplete ex d"
  by (auto simp: incomplete_def split: option.splits)

lemma stall_inv_init: "stall_inv ex (init_state t0)"
  by (simp add: stall_inv_def init_state_def low_run_Nil)

lemma stall_inv_downloaded:
  "stall_inv ex s \<Longrightarrow> stall_inv ex (s\<lparr>downloaded := downloaded s + n\<rparr>)"
  by (auto simp: stall_inv_def dest: incomplete_mono)

lemma check_speed_inv:
  assumes "check_speed ex t s = (r, s')" and "stall_inv ex s"
  shows "r = None \<Longrightarrow> stall_inv ex s'"
    and "r \<noteq> None \<Longrightarrow> r = Some (TimeoutError SlowSpeed) \<and> incomplete ex (downloaded s')
           \<and> 3 \<le> stall_count s' \<and> 1 \<le> low_run (speeds_logged s')"
  using assms
  by (auto simp: check_speed_def Let_def stall_inv_def low_run_snoc split: if_splits)

lemma check_speed_count:
  "check_speed ex t s = (r, s') \<Longrightarrow> stall_count s = low_run (speeds_logged s) \<Longrightarrow>
   stall_count s' = low_run (speeds_logged s')"
  by (auto simp: check_speed_def Let_def low_run_snoc split: if_splits)

lemma check_progress_inv:
  assumes "check_progress ex tot t s = (r, s')"
  shows "stall_inv ex s \<Longrightarrow> stall_inv ex s'"
    and "r \<noteq> None \<Longrightarrow> r = Some (TimeoutError NoProgress) \<and> incomplete ex (downloaded s')
           \<and> 3 \<le> stall_count s' \<and> 0 < tot"
    and "tot \<le> 0 \<Longrightarrow> s' = s"
  using assms
  by (auto simp: check_progress_def Let_def stall_inv_def split: if_splits)

lemma raised_not_stall:
  "raised e \<noteq> TimeoutError SlowSpeed" "raised e \<noteq> TimeoutError NoProgress"
  by (cases e; simp)+

lemma read_loop_stall:
  "read_loop fn ex tot evs s w = (r, s', w') \<Longrightarrow> stall_inv ex s \<Longrightarrow>
   (r \<noteq> Some (TimeoutError SlowSpeed) \<longrightarrow> stall_inv ex s')
   \<and> (r = Some (TimeoutError SlowSpeed) \<longrightarrow> incomplete ex (downloaded s')
         \<and> 3 \<le> stall_count s' \<and> 1 \<le> low_run (speeds_logged s'))
   \<and> (r = Some (TimeoutError NoProgress) \<longrightarrow> incomplete ex (downloaded s')
         \<and> 3 \<le> stall_count s' \<and> 0 < tot)"
proof (induction evs arbitrary: s w)
  case Nil
  then show ?case by simp
next
  case (Cons ev evs)
  show ?case
  proof (cases ev)
    case (ReadRaises e)
    with Cons.prems show ?thesis by (auto simp: raised_not_stall)
  next
    case (Chunk chunk t1 t2)
    show ?thesis
    proof (cases "chunk = []")
      case True
      with Cons.prems Chunk show ?thesis by simp
    next
      case False
      let ?s1 = "s\<lparr>downloaded := downloaded s + length chunk\<rparr>"
      obtain r1 s2 where cs: "check_speed ex t1 ?s1 = (r1, s2)"
        by (cases "check_speed ex t1 ?s1")
      obtain r2 s3 where cp: "check_progress ex tot t2 s2 = (r2, s3)"
        by (cases "check_progress ex tot t2 s2")
      have i1: "stall_inv ex ?s1" using Cons.prems(2) by (rule stall_inv_downloaded)
      show ?thesis
      proof (cases r1)
        case (Some e1)
        then have "r = r1" "s' = s2"
          using Cons.prems(1) Chunk False cs by (simp_all add: Let_def)
        then show ?thesis using check_speed_inv(2)[OF cs i1] Some by auto
      next
        case None
        note i2 = check_speed_inv(1)[OF cs i1 None]
        note i3 = check_progress_inv(1)[OF cp i2]
        show ?thesis
        proof (cases r2)
          case (Some e2)
          then have "r = r2" "s' = s3"
            using Cons.prems(1) Chunk False cs cp None by (simp_all add: Let_def)
          then show ?thesis using check_progress_inv(2)[OF cp] Some i3 by auto
        next
          case n2: None
          then have "read_loop fn ex tot evs s3 (write_chunk fn chunk w) = (r, s', w')"
            using Cons.prems(1) Chunk False cs cp None by (simp add: Let_def)
          from Cons.IH[OF this i3] show ?thesis .
        qed
      qed
    qed
  qed
qed

lemma read_loop_no_length:
  "read_loop fn ex tot evs s w = (r, s', w') \<Longrightarrow> tot \<le> 0 \<Longrightarrow>
   stall_count s = low_run (speeds_logged s) \<Longrightarrow> stall_count s' = low_run (speeds_logged s')"
proof (induction evs arbitrary: s w)
  case Nil
  then show ?case by simp
next
  case (Cons ev evs)
  show ?case
  proof (cases ev)
    case (ReadRaises e)
    with Cons.prems show ?thesis by auto
  next
    case (Chunk chunk t1 t2)
    show ?thesis
    proof (cases "chunk = []")
      case True
      with Cons.prems Chunk show ?thesis by simp
    next
      case False
      let ?s1 = "s\<lparr>downloaded := downloaded s + length chunk\<rparr>"
      obtain r1 s2 where cs: "check_speed ex t1 ?s1 = (r1, s2)"
        by (cases "check_speed ex t1 ?s1")
      have cp: "check_progress ex tot t2 s2 = (None, s2)"
        using Cons.prems(2) by (simp add: check_progress_def)
      have e2: "stall_count s2 = low_run (speeds_logged s2)"
        using check_speed_count[OF cs] Cons.prems(3) by simp
      show ?thesis
      proof (cases r1)
        case (Some e1)
        then have "s' = s2"
          using Cons.prems(1) Chunk False cs by (simp add: Let_def)
        then show ?thesis using e2 by simp
      next
        case None
        then have "read_loop fn ex tot evs s2 (write_chunk fn chunk w) = (r, s', w')"
          using Cons.prems(1) Chunk False cs cp by (simp add: Let_def)
        from Cons.IH[OF this Cons.prems(2) e2] show ?thesis .
      qed
    qed
  qed
qed

subsection \<open>Runs on the sample streams\<close>

lemmas run_simps = check_speed_def check_progress_def init_state_def incomplete_def
  write_chunk_def Let_def SPEED_CHECK_INTERVAL_def MIN_SPEED_BYTES_PER_SECOND_def
  CHUNK_TIMEOUT_def empty_world_def

lemma three_slow_reads_known:
  "fst (read_loop ''a.mp4'' (Some 1000) 0 three_slow_reads (init_state 0) empty_world)
     = Some (TimeoutError SlowSpeed)"
  "speeds_logged (fst (snd (read_loop ''a.mp4'' (Some 1000) 0 three_slow_reads (init_state 0)
     empty_world))) = [1 / 100, 1 / 100, 1 / 100]"
  "downloaded (fst (snd (read_loop ''a.mp4'' (Some 1000) 0 three_slow_reads (init_state 0)
     empty_world))) = 3"
  by (simp_all add: three_slow_reads_def run_simps)

lemma three_slow_reads_unknown:
  "fst (read_loop ''a.mp4'' None 0 three_slow_reads (init_state 0) empty_world) = None"
  "speeds_logged (fst (snd (read_loop ''a.mp4'' None 0 three_slow_reads (init_state 0)
     empty_world))) = [1 / 100, 1 / 100, 1 / 100]"
  by (simp_all add: three_slow_reads_def run_simps)

lemma low_run_three: "low_run [1 / 100, 1 / 100, 1 / 100] = 3"
  by (simp add: low_run_def MIN_SPEED_BYTES_PER_SECOND_def)

lemma mebibyte_simps: "length mebibyte = 1048576" "mebibyte \<noteq> []"
  by (auto simp only: mebibyte_def length_replicate replicate_empty)

lemma stuck_first_check:
  "check_speed (Some 1000) 1830 ((init_state 0)\<lparr>downloaded := downloaded (init_state 0) + length ''a''\<rparr>)
     = (None, \<lparr>downloaded = 1, last_speed_check = 1830, last_bytes_downloaded = 1,
          last_progress = 0, last_progress_time = 0, stall_count = 1,
          speeds_logged = [1 / 1830]\<rparr>)"
  by (simp add: run_simps)

text \<open>
  Percentages as Python computes them. \<open>(29 / 100) * 100\<close> is
  \<open>28.999999999999996\<close>, so \<open>int\<close> gives 28 where exact arithmetic gives 29.
\<close>

lemma progress_percent_of_1000:
  "\<lfloor>progress_percent (Suc 0) 1000\<rfloor> = 0"
  "\<lfloor>progress_percent (Suc (Suc 0)) 1000\<rfloor> = 0"
  by code_simp+

lemma progress_percent_of_100:
  "\<lfloor>progress_percent 28 100\<rfloor> = 28"
  "\<lfloor>progress_percent 29 100\<rfloor> = 28"
  by code_simp+

lemma mebibytes_of_terabyte:
  "(of_nat 1048576 / of_int 1000000000000 :: rat) = 1048576 / 1000000000000"
  "(of_nat 2097152 / of_int 1000000000000 :: rat) = 2097152 / 1000000000000"
  "(of_nat 3145728 / of_int 1000000000000 :: rat) = 3145728 / 1000000000000"
  by simp_all

lemma progress_percent_of_terabyte:
  "\<lfloor>progress_percent 1048576 1000000000000\<rfloor> = 0"
  "\<lfloor>progress_percent 2097152 1000000000000\<rfloor> = 0"
  "\<lfloor>progress_percent 3145728 1000000000000\<rfloor> = 0"
  unfolding progress_percent_def mebibytes_of_terabyte by code_simp+

lemma after_28_of_100_reached:
  "read_loop ''a.mp4'' (Some 100) 100 [Chunk (replicate 28 (CHR ''x'')) 10 10] (init_state 0)
     empty_world
   = (None, after_28_of_100, write_chunk ''a.mp4'' (replicate 28 (CHR ''x'')) empty_world)"
  by (simp add: after_28_of_100_def check_speed_def check_progress_def init_state_def Let_def
      SPEED_CHECK_INTERVAL_def progress_percent_of_100)

lemma check_speed_at_29_of_100:
  "check_speed (Some 100) 1900 (after_28_of_100\<lparr>downloaded := downloaded after_28_of_100 + length ''x''\<rparr>)
     = (None, \<lparr>downloaded = 29, last_speed_check = 1900, last_bytes_downloaded = 29,
          last_progress = progress_percent 28 100, last_progress_time = 10, stall_count = 1,
          speeds_logged = [29 / 1900]\<rparr>)"
  by (simp add: after_28_of_100_def run_simps)

section \<open>Claims\<close>

text \<open>
  C9, as amended. The size prober returns the declared content length when the HEAD
  request is answered with status exactly 200 and the length is positive. It returns
  \<open>None\<close> for every other status, the other 2xx statuses included, for a missing,
  zero, negative or unreadable length, and when the request raises; it never raises
  itself. A size it returns is always positive and comes from a response with
  status 200.
\<close>

theorem size_prober_contract:
  "(0 < n \<longrightarrow> get_expected_file_size (Response 200 (Number n)) = Some n)
   \<and> (status \<noteq> 200 \<longrightarrow> get_expected_file_size (Response status h) = None)
   \<and> get_expected_file_size (Response status Absent) = None
   \<and> (n \<le> 0 \<longrightarrow> get_expected_file_size (Response status (Number n)) = None)
   \<and> get_expected_file_size (Response status Malformed) = None
   \<and> get_expected_file_size (Raises e) = None
   \<and> (get_expected_file_size r = Some m \<longrightarrow> 0 < m \<and> r = Response 200 (Number m))"
  by (auto simp: get_expected_file_size_def parse_length_def
      split: response.splits header.splits if_splits)

theorem size_prober_contract_witness:
  "get_expected_file_size (Response 200 (Number 1024)) = Some 1024
   \<and> get_expected_file_size (Response 404 (Number 1024)) = None
   \<and> get_expected_file_size (Response 200 (Number 0)) = None
   \<and> get_expected_file_size (Response 200 Absent) = None
   \<and> get_expected_file_size (Raises ConnectionFault) = None"
  using size_prober_contract[of 1024 404 "Number 1024" ConnectionFault "Response 200 (Number 1024)" 1024]
    size_prober_contract[of 0 200 Absent ConnectionFault "Raises ConnectionFault" 1]
  by simp

text \<open>
  C9 as stated fails when success means any 2xx status: a HEAD response with status 206
  and a content length of 1024 gives \<open>None\<close>, not the declared length.
\<close>

theorem size_prober_status_206_counterexample:
  "get_expected_file_size (Response 206 (Number 1024)) = None
   \<and> get_expected_file_size (Response 206 (Number 1024)) \<noteq> Some 1024"
  by (simp add: get_expected_file_size_def)

text \<open>
  C10. A response whose status is not exactly 200 (201 and 206 included) makes
  \<open>download_video\<close> return \<open>False\<close>: no file is written, the ledger is untouched, and
  the trace grows by the rate-limit sleep of a first attempt and the one request, with
  no retry.
\<close>

theorem only_200_is_success:
  assumes "get_response (net ev k) = Response status h" and "status \<noteq> 200"
    and "download_video ev fn k w = (b, w')"
  shows "\<not> b \<and> files w' = files w \<and> ledger w' = ledger w
    \<and> trace w' = trace w @ (if k = 0 then [Slept RATE_LIMIT_DELAY] else []) @ [Requested k]"
  using download_video_return[OF try_body_status[OF assms(1,2)], of fn w] assms(3)
  by (auto simp: world_simps)

theorem only_200_is_success_witness:
  "get_response (net \<lparr>net = (\<lambda>k. answers 206), file_sizes = no_sizes\<rparr> 0) = Response 206 (Number 5)
   \<and> download_video \<lparr>net = (\<lambda>k. answers 206), file_sizes = no_sizes\<rparr> ''a.mp4'' 0 empty_world
       = (False, empty_world\<lparr>trace := [Slept 60, Requested 0]\<rparr>)"
proof -
  let ?ev = "\<lparr>net = (\<lambda>k. answers 206), file_sizes = no_sizes\<rparr>"
  have g: "get_response (net ?ev 0) = Response 206 (Number 5)"
    by (simp add: answers_def)
  obtain b w' where dv: "download_video ?ev ''a.mp4'' 0 empty_world = (b, w')"
    by (cases "download_video ?ev ''a.mp4'' 0 empty_world")
  from only_200_is_success[OF g _ dv]
  have "\<not> b" "files w' = files empty_world" "ledger w' = ledger empty_world"
    "trace w' = [Slept 60, Requested 0]"
    by (simp_all add: empty_world_def RATE_LIMIT_DELAY_def)
  then have "w' = empty_world\<lparr>trace := [Slept 60, Requested 0]\<rparr>" "b = False"
    by (simp_all add: empty_world_def)
  with g dv show ?thesis by simp
qed

text \<open>
  C4. A response with a status outside 200..299 ends \<open>download_video\<close> at once with
  \<open>False\<close>: the only request is the one of this attempt and the only sleep the
  rate-limit delay of a first attempt, so there is no retry and no backoff sleep. A
  client error or a timeout raised by the request takes the retry path instead: while
  attempts remain, the call continues as the next attempt after the backoff sleep, and
  that next attempt issues its request.
\<close>

theorem http_status_is_final_network_error_retries:
  "(get_response (net ev k) = Response status h \<and> (status < 200 \<or> 300 \<le> status)
      \<and> download_video ev fn k w = (b, w')
     \<longrightarrow> \<not> b \<and> requests (trace w') = requests (trace w) @ [k]
         \<and> sleeps (trace w') = sleeps (trace w) @ (if k = 0 then [RATE_LIMIT_DELAY] else [])
         \<and> trace w' = trace w @ (if k = 0 then [Slept RATE_LIMIT_DELAY] else []) @ [Requested k])
   \<and> (get_response (net ev k) = Raises e \<and> retryable (raised e) \<and> k < MAX_RETRIES - 1
     \<longrightarrow> download_video ev fn k w =
           download_video ev fn (Suc k)
             (sleep (RETRY_DELAY * 2 ^ k)
                (request k (if k = 0 then sleep RATE_LIMIT_DELAY w else w)))
         \<and> Requested (Suc k) \<in> set (trace (snd (download_video ev fn k w))))"
proof (intro conjI impI)
  assume a: "get_response (net ev k) = Response status h \<and> (status < 200 \<or> 300 \<le> status)
      \<and> download_video ev fn k w = (b, w')"
  then have ne: "status \<noteq> 200" by auto
  from a have g: "get_response (net ev k) = Response status h" by simp
  have w': "b = False" "w' = request k (if k = 0 then sleep RATE_LIMIT_DELAY w else w)"
    using download_video_return[OF try_body_status[OF g ne], of fn w] a by simp_all
  show "\<not> b" using w' by simp
  show "requests (trace w') = requests (trace w) @ [k]"
    using w' by (simp add: world_simps requests_append)
  show "sleeps (trace w') = sleeps (trace w) @ (if k = 0 then [RATE_LIMIT_DELAY] else [])"
    using w' by (simp add: world_simps sleeps_append)
  show "trace w' = trace w @ (if k = 0 then [Slept RATE_LIMIT_DELAY] else []) @ [Requested k]"
    using w' by (simp add: world_simps)
next
  assume a: "get_response (net ev k) = Raises e \<and> retryable (raised e) \<and> k < MAX_RETRIES - 1"
  let ?w1 = "request k (if k = 0 then sleep RATE_LIMIT_DELAY w else w)"
  let ?w2 = "sleep (RETRY_DELAY * 2 ^ k) ?w1"
  from a have tb: "try_body ev fn k w = (Inl (raised e), ?w1)"
    by (simp add: try_body_raises)
  show eq: "download_video ev fn k w = download_video ev fn (Suc k) ?w2"
    using download_video_retry[OF tb] a by simp
  obtain b' w'' where dv: "download_video ev fn (Suc k) ?w2 = (b', w'')"
    by (cases "download_video ev fn (Suc k) ?w2")
  from download_video_schedule[OF dv] obtain n where
    n: "1 \<le> n" "requests (trace w'') = requests (trace ?w2) @ [Suc k..<Suc k + n]"
    by blast
  have "Suc k \<in> {Suc k..<Suc k + n}" using n(1) by simp
  then have "Suc k \<in> set [Suc k..<Suc k + n]" by (simp only: set_upt)
  then have "Suc k \<in> set (requests (trace w''))"
    by (simp only: n(2) set_append Un_iff simp_thms)
  then show "Requested (Suc k) \<in> set (trace (snd (download_video ev fn k w)))"
    using eq dv by (simp add: requests_mem)
qed

theorem http_status_is_final_network_error_retries_witness:
  "download_video \<lparr>net = (\<lambda>k. answers 404), file_sizes = no_sizes\<rparr> ''a.mp4'' 0 empty_world
       = (False, empty_world\<lparr>trace := [Slept 60, Requested 0]\<rparr>)
   \<and> sleeps (trace (snd (download_video \<lparr>net = (\<lambda>k. answers 404), file_sizes = no_sizes\<rparr>
         ''a.mp4'' 0 empty_world))) = [60]
   \<and> get_response (net \<lparr>net = (\<lambda>k. if k = 0 then refused ConnectionFault else answers 404),
         file_sizes = no_sizes\<rparr> 0) = Raises ConnectionFault
   \<and> download_video \<lparr>net = (\<lambda>k. if k = 0 then refused ConnectionFault else answers 404),
         file_sizes = no_sizes\<rparr> ''a.mp4'' 0 empty_world
       = (False, empty_world\<lparr>trace := [Slept 60, Requested 0, Slept 300, Requested 1]\<rparr>)"
proof -
  let ?ev = "\<lparr>net = (\<lambda>k. answers 404), file_sizes = no_sizes\<rparr>"
  let ?ev2 = "\<lparr>net = (\<lambda>k. if k = 0 then refused ConnectionFault else answers 404), file_sizes = no_sizes\<rparr>"
  have g: "get_response (net ?ev 0) = Response 404 (Number 5)"
    by (simp add: answers_def)
  obtain b w' where dv: "download_video ?ev ''a.mp4'' 0 empty_world = (b, w')"
    by (cases "download_video ?ev ''a.mp4'' 0 empty_world")
  from http_status_is_final_network_error_retries[of ?ev 0 404 "Number 5" "''a.mp4''" empty_world b w' ConnectionFault]
    g dv
  have "\<not> b" "trace w' = [Slept 60, Requested 0]" "sleeps (trace w') = [60]"
    by (simp_all add: empty_world_def RATE_LIMIT_DELAY_def)
  moreover have "files w' = files empty_world \<and> ledger w' = ledger empty_world"
  proof -
    have "try_body ?ev ''a.mp4'' 0 empty_world
       = (Inr False, request 0 (if (0::nat) = 0 then sleep RATE_LIMIT_DELAY empty_world else empty_world))"
      using try_body_status[OF g] by simp
    from download_video_return[OF this] dv show ?thesis
      by (auto simp: world_simps)
  qed
  ultimately have 1: "w' = empty_world\<lparr>trace := [Slept 60, Requested 0]\<rparr>" "b = False"
    "sleeps (trace w') = [60]"
    by (simp_all add: empty_world_def)
  have g2: "get_response (net ?ev2 0) = Raises ConnectionFault"
    by (simp add: refused_def)
  have g3: "get_response (net ?ev2 1) = Response 404 (Number 5)"
    by (simp add: answers_def)
  from http_status_is_final_network_error_retries[of ?ev2 0 404 "Number 5" "''a.mp4''" empty_world b w' ConnectionFault]
    g2
  have "download_video ?ev2 ''a.mp4'' 0 empty_world =
     download_video ?ev2 ''a.mp4'' (Suc 0) (sleep (RETRY_DELAY * 2 ^ 0) (request 0 (sleep RATE_LIMIT_DELAY empty_world)))"
    by (simp add: MAX_RETRIES_def)
  also have "\<dots> = (False, request (Suc 0) (sleep (RETRY_DELAY * 2 ^ 0) (request 0 (sleep RATE_LIMIT_DELAY empty_world))))"
  proof -
    have "try_body ?ev2 ''a.mp4'' (Suc 0) (sleep (RETRY_DELAY * 2 ^ 0) (request 0 (sleep RATE_LIMIT_DELAY empty_world)))
       = (Inr False, request (Suc 0) (sleep (RETRY_DELAY * 2 ^ 0) (request 0 (sleep RATE_LIMIT_DELAY empty_world))))"
      using try_body_status[of ?ev2 "Suc 0" 404 "Number 5"] g3 by simp
    from download_video_return[OF this] show ?thesis by simp
  qed
  finally have 2: "download_video ?ev2 ''a.mp4'' 0 empty_world
       = (False, empty_world\<lparr>trace := [Slept 60, Requested 0, Slept 300, Requested 1]\<rparr>)"
    by (simp add: request_def sleep_def empty_world_def RETRY_DELAY_def RATE_LIMIT_DELAY_def)
  show ?thesis using 1 2 g2 dv by simp
qed

text \<open>
  C3. When an attempt with index \<open>k\<close> fails with a client error or a timeout, the
  call sleeps \<open>RETRY_DELAY * 2 ^ k\<close> seconds and continues as attempt \<open>k + 1\<close> as long
  as \<open>k < MAX_RETRIES - 1\<close>; otherwise it returns \<open>False\<close>. A call that starts at
  attempt 0 makes the attempts \<open>0, ..., n - 1\<close> for some \<open>n\<close> between 1 and
  \<open>MAX_RETRIES\<close>, and after the rate-limit delay its sleeps are exactly
  \<open>RETRY_DELAY * 2 ^ j\<close> for \<open>j = 0, ..., n - 2\<close>. The function is total: it returns a
  truth value on every input.
\<close>

theorem retry_backoff_schedule:
  "(try_body ev fn k w = (Inl e, w1) \<and> retryable e
     \<longrightarrow> download_video ev fn k w =
           (if k < MAX_RETRIES - 1
            then download_video ev fn (Suc k) (sleep (RETRY_DELAY * 2 ^ k) w1)
            else (False, w1)))
   \<and> (download_video ev fn 0 w = (b, w')
     \<longrightarrow> (\<exists>n. 1 \<le> n \<and> n \<le> MAX_RETRIES
           \<and> requests (trace w') = requests (trace w) @ [0..<n]
           \<and> sleeps (trace w') = sleeps (trace w)
                @ RATE_LIMIT_DELAY # map (\<lambda>j. RETRY_DELAY * 2 ^ j) [0..<n - 1]))"
proof (intro conjI impI)
  assume a: "try_body ev fn k w = (Inl e, w1) \<and> retryable e"
  show "download_video ev fn k w =
           (if k < MAX_RETRIES - 1
            then download_video ev fn (Suc k) (sleep (RETRY_DELAY * 2 ^ k) w1)
            else (False, w1))"
  proof (cases "k < MAX_RETRIES - 1")
    case True
    then show ?thesis using download_video_retry[of ev fn k w e w1] a by simp
  next
    case False
    then show ?thesis using download_video_give_up[of ev fn k w e w1] a by simp
  qed
next
  assume "download_video ev fn 0 w = (b, w')"
  from download_video_schedule[OF this] obtain n where
    n: "1 \<le> n" "0 + n \<le> MAX_RETRIES \<or> n = 1"
      "requests (trace w') = requests (trace w) @ [0..<0 + n]"
      "sleeps (trace w') = sleeps (trace w) @ (if (0::nat) = 0 then [RATE_LIMIT_DELAY] else [])
           @ map (\<lambda>j. RETRY_DELAY * 2 ^ j) [0..<0 + n - 1]"
    by blast
  have "n \<le> MAX_RETRIES" using n(2) by (auto simp: MAX_RETRIES_def)
  then show "\<exists>n. 1 \<le> n \<and> n \<le> MAX_RETRIES
           \<and> requests (trace w') = requests (trace w) @ [0..<n]
           \<and> sleeps (trace w') = sleeps (trace w)
                @ RATE_LIMIT_DELAY # map (\<lambda>j. RETRY_DELAY * 2 ^ j) [0..<n - 1]"
    using n(1,3,4) by (intro exI[of _ n]) simp
qed

theorem retry_backoff_schedule_witness:
  "try_body \<lparr>net = (\<lambda>k. refused ConnectionFault), file_sizes = no_sizes\<rparr> ''a.mp4'' 0 empty_world
     = (Inl ClientError, empty_world\<lparr>trace := [Slept 60, Requested 0]\<rparr>)
   \<and> download_video \<lparr>net = (\<lambda>k. refused ConnectionFault), file_sizes = no_sizes\<rparr> ''a.mp4'' 0 empty_world
     = download_video \<lparr>net = (\<lambda>k. refused ConnectionFault), file_sizes = no_sizes\<rparr> ''a.mp4'' 1
         (empty_world\<lparr>trace := [Slept 60, Requested 0, Slept 300]\<rparr>)
   \<and> download_video \<lparr>net = (\<lambda>k. refused ConnectionFault), file_sizes = no_sizes\<rparr> ''a.mp4'' 0 empty_world
     = (False, empty_world\<lparr>trace := [Slept 60, Requested 0, Slept 300, Requested 1,
          Slept 600, Requested 2, Slept 1200, Requested 3, Slept 2400, Requested 4]\<rparr>)
   \<and> (\<exists>n. 1 \<le> n \<and> n \<le> MAX_RETRIES
        \<and> requests [Slept 60, Requested 0, Slept 300, Requested 1,
          Slept 600, Requested 2, Slept 1200, Requested 3, Slept 2400, Requested 4] = [0..<n]
        \<and> sleeps [Slept 60, Requested 0, Slept 300, Requested 1,
          Slept 600, Requested 2, Slept 1200, Requested 3, Slept 2400, Requested 4]
           = RATE_LIMIT_DELAY # map (\<lambda>j. RETRY_DELAY * 2 ^ j) [0..<n - 1])"
proof -
  let ?ev = "\<lparr>net = (\<lambda>k. refused ConnectionFault), file_sizes = no_sizes\<rparr>"
  let ?tr = "[Slept 60, Requested 0, Slept 300, Requested 1,
          Slept 600, Requested 2, Slept 1200, Requested 3, Slept 2400, Requested 4]"
  have tb: "try_body ?ev ''a.mp4'' 0 empty_world
     = (Inl ClientError, empty_world\<lparr>trace := [Slept 60, Requested 0]\<rparr>)"
    by (simp add: try_body_def refused_def empty_world_def sleep_def request_def RATE_LIMIT_DELAY_def)
  have dv: "download_video ?ev ''a.mp4'' 0 empty_world = (False, empty_world\<lparr>trace := ?tr\<rparr>)"
    by (simp add: download_video.simps try_body_def refused_def empty_world_def sleep_def
        request_def RATE_LIMIT_DELAY_def RETRY_DELAY_def MAX_RETRIES_def)
  note th = retry_backoff_schedule[of ?ev "''a.mp4''" 0 empty_world ClientError
      "empty_world\<lparr>trace := [Slept 60, Requested 0]\<rparr>" False "empty_world\<lparr>trace := ?tr\<rparr>"]
  have step: "download_video ?ev ''a.mp4'' 0 empty_world
     = download_video ?ev ''a.mp4'' 1 (empty_world\<lparr>trace := [Slept 60, Requested 0, Slept 300]\<rparr>)"
    using th tb by (simp add: MAX_RETRIES_def RETRY_DELAY_def sleep_def empty_world_def)
  have sched: "\<exists>n. 1 \<le> n \<and> n \<le> MAX_RETRIES \<and> requests ?tr = [0..<n]
        \<and> sleeps ?tr = RATE_LIMIT_DELAY # map (\<lambda>j. RETRY_DELAY * 2 ^ j) [0..<n - 1]"
    using th dv by (simp add: empty_world_def)
  show ?thesis using tb step dv sched by simp
qed

text \<open>
  C1. When \<open>download_video\<close> returns \<open>True\<close>, some attempt \<open>j\<close> was answered with
  status 200, the output file holds exactly the chunks that attempt delivered, so its
  size is the sum of their lengths, the ledger has grown by the entry of the file
  name, and the trace ends with the request of attempt \<open>j\<close>, the writes of its chunks
  in order and, right after the last write, the ledger entry. When it returns
  \<open>False\<close>, the ledger is unchanged.
\<close>

theorem ledger_entry_after_complete_file:
  assumes "download_video ev fn k w = (b, w')"
  shows "(b \<longrightarrow> (\<exists>j pre. k \<le> j
            \<and> (\<exists>h. get_response (net ev j) = Response 200 h)
            \<and> files w' fn = Some (concat (delivered (reads (net ev j))))
            \<and> map_option length (files w' fn)
                 = Some (sum_list (map length (delivered (reads (net ev j)))))
            \<and> ledger w' = Some (ledger_text w @ LF # fn)
            \<and> trace w' = trace w @ pre @ Requested j
                 # map (Wrote fn) (delivered (reads (net ev j))) @ [Marked fn]))
       \<and> (\<not> b \<longrightarrow> ledger w' = ledger w)"
proof (intro conjI impI)
  assume b
  with download_video_ledger[OF assms] obtain j pre where
    j: "k \<le> j" "\<exists>h. get_response (net ev j) = Response 200 h"
       "files w' fn = Some (concat (delivered (reads (net ev j))))"
       "ledger w' = Some (ledger_text w @ LF # fn)"
       "trace w' = trace w @ pre @ Requested j
                 # map (Wrote fn) (delivered (reads (net ev j))) @ [Marked fn]"
    by blast
  have "map_option length (files w' fn) = Some (sum_list (map length (delivered (reads (net ev j)))))"
    using j(3) by (simp add: length_concat)
  with j show "\<exists>j pre. k \<le> j
            \<and> (\<exists>h. get_response (net ev j) = Response 200 h)
            \<and> files w' fn = Some (concat (delivered (reads (net ev j))))
            \<and> map_option length (files w' fn)
                 = Some (sum_list (map length (delivered (reads (net ev j)))))
            \<and> ledger w' = Some (ledger_text w @ LF # fn)
            \<and> trace w' = trace w @ pre @ Requested j
                 # map (Wrote fn) (delivered (reads (net ev j))) @ [Marked fn]"
    by blast
next
  assume "\<not> b"
  with download_video_ledger[OF assms] show "ledger w' = ledger w" by simp
qed

theorem ledger_entry_after_complete_file_witness:
  "download_video \<lparr>net = (\<lambda>k. two_chunks), file_sizes = no_sizes\<rparr> ''a.mp4'' 0 empty_world
     = (True, \<lparr>files = (\<lambda>name. None)(''a.mp4'' \<mapsto> ''abcde''),
               ledger = Some (LF # ''a.mp4''),
               trace = [Slept 60, Requested 0, Wrote ''a.mp4'' ''abc'', Wrote ''a.mp4'' ''de'',
                        Marked ''a.mp4'']\<rparr>)
   \<and> (\<exists>j pre. map_option length
          (files (snd (download_video \<lparr>net = (\<lambda>k. two_chunks), file_sizes = no_sizes\<rparr>
             ''a.mp4'' 0 empty_world)) ''a.mp4'')
        = Some (sum_list (map length (delivered (reads two_chunks))))
      \<and> [Slept 60, Requested 0, Wrote ''a.mp4'' ''abc'', Wrote ''a.mp4'' ''de'', Marked ''a.mp4'']
        = pre @ Requested j # map (Wrote ''a.mp4'') (delivered (reads two_chunks))
            @ [Marked ''a.mp4''])"
proof -
  let ?ev = "\<lparr>net = (\<lambda>k. two_chunks), file_sizes = no_sizes\<rparr>"
  let ?w = "\<lparr>files = (\<lambda>name. None)(''a.mp4'' \<mapsto> ''abcde''),
               ledger = Some (LF # ''a.mp4''),
               trace = [Slept 60, Requested 0, Wrote ''a.mp4'' ''abc'', Wrote ''a.mp4'' ''de'',
                        Marked ''a.mp4'']\<rparr>"
  have dv: "download_video ?ev ''a.mp4'' 0 empty_world = (True, ?w)"
    by (simp add: download_video.simps try_body_def two_chunks_def empty_world_def sleep_def
        request_def open_wb_def write_chunk_def mark_as_downloaded_def ledger_text_def
        parse_length_def init_state_def check_speed_def check_progress_def no_sizes_def
        incomplete_def Let_def RATE_LIMIT_DELAY_def SPEED_CHECK_INTERVAL_def CHUNK_TIMEOUT_def)
  from ledger_entry_after_complete_file[OF dv] obtain j pre where
    "map_option length (files ?w ''a.mp4'') = Some (sum_list (map length (delivered (reads two_chunks))))"
    "trace ?w = trace empty_world @ pre @ Requested j
         # map (Wrote ''a.mp4'') (delivered (reads two_chunks)) @ [Marked ''a.mp4'']"
    by auto
  then have "\<exists>j pre. map_option length (files ?w ''a.mp4'')
        = Some (sum_list (map length (delivered (reads two_chunks))))
      \<and> trace ?w = pre @ Requested j # map (Wrote ''a.mp4'') (delivered (reads two_chunks))
            @ [Marked ''a.mp4'']"
    unfolding empty_world_def by (intro exI[of _ j] exI[of _ pre]) simp
  then show ?thesis unfolding dv by simp
qed

text \<open>
  C5. Every URL that \<open>download_videos\<close> hands to a download worker is URL-shaped and
  has a file name (its last path segment) that is not in the completed set read from
  the ledger at the start; so no file name of the completed set is attempted. The
  URLs handed over, in order, are the stripped non-empty lines of the download list
  that pass these two filters, cut to the limit when one is given.
\<close>

theorem completed_files_not_attempted:
  assumes "download_videos w list limit = Inr plan"
  shows "(\<forall>url \<in> set (concat (groups plan)).
            is_url url \<and> get_filename url \<notin> get_downloaded_files w)
       \<and> (\<exists>listing. list = Some listing \<and> concat (groups plan) =
            (case limit of None \<Rightarrow> (\<lambda>urls. urls) | Some n \<Rightarrow> slice_to n)
              (filter (\<lambda>url. get_filename url \<notin> get_downloaded_files w)
                 (filter is_url (stripped_lines listing))))"
proof -
  from download_videos_handed[OF assms] obtain listing where lst: "list = Some listing"
    "concat (groups plan) =
       (case limit of None \<Rightarrow> new_urls w listing | Some n \<Rightarrow> slice_to n (new_urls w listing))"
    by blast
  have new: "new_urls w listing = filter (\<lambda>url. get_filename url \<notin> get_downloaded_files w)
                 (filter is_url (stripped_lines listing))"
    by (simp add: new_urls_def Let_def)
  have "set (concat (groups plan)) \<subseteq> set (new_urls w listing)"
    using lst(2) slice_to_subset[of _ "new_urls w listing"] by (cases limit) auto
  then have "\<forall>url \<in> set (concat (groups plan)).
            is_url url \<and> get_filename url \<notin> get_downloaded_files w"
    unfolding new by auto
  moreover have "concat (groups plan) =
            (case limit of None \<Rightarrow> (\<lambda>urls. urls) | Some n \<Rightarrow> slice_to n)
              (filter (\<lambda>url. get_filename url \<notin> get_downloaded_files w)
                 (filter is_url (stripped_lines listing)))"
    using lst(2) new by (cases limit) simp_all
  ultimately show ?thesis using lst(1) by blast
qed

theorem completed_files_not_attempted_witness:
  "download_videos two_done (Some five_urls) None
     = Inr [Gather [''http://h/2'', ''http://h/4''], Pace 60, Gather [''http://h/5'']]
   \<and> get_downloaded_files two_done = {''1'', ''3''}
   \<and> get_filename ''http://h/2'' \<notin> get_downloaded_files two_done
   \<and> get_filename ''http://h/4'' \<notin> get_downloaded_files two_done
   \<and> get_filename ''http://h/5'' \<notin> get_downloaded_files two_done"
proof -
  have dv: "download_videos two_done (Some five_urls) None
     = Inr [Gather [''http://h/2'', ''http://h/4''], Pace 60, Gather [''http://h/5'']]"
    by (simp add: download_videos_def three_new batches.simps MAX_CONCURRENT_DOWNLOADS_def
        RATE_LIMIT_DELAY_def)
  from completed_files_not_attempted[OF dv]
  have "\<forall>url \<in> set [''http://h/2'', ''http://h/4'', ''http://h/5''].
            is_url url \<and> get_filename url \<notin> get_downloaded_files two_done"
    by simp
  then show ?thesis using dv two_done_files by simp
qed

text \<open>
  C6 as stated fails: for five new URLs the scheduler sleeps two pacing delays, not
  three.
\<close>

theorem five_urls_two_pacing_delays_counterexample:
  "download_videos empty_world (Some five_urls) None
     = Inr [Gather [''http://h/1'', ''http://h/2''], Pace 60,
            Gather [''http://h/3'', ''http://h/4''], Pace 60, Gather [''http://h/5'']]
   \<and> length (pacing [Gather [''http://h/1'', ''http://h/2''], Pace 60,
            Gather [''http://h/3'', ''http://h/4''], Pace 60, Gather [''http://h/5'']]) \<noteq> 3"
  by (simp add: download_videos_def five_new batches_five RATE_LIMIT_DELAY_def)

text \<open>
  C6, as amended. Five new URLs and \<open>MAX_CONCURRENT_DOWNLOADS = 2\<close> give the groups
  \<open>[u1, u2]\<close>, \<open>[u3, u4]\<close>, \<open>[u5]\<close>, each gathered before the next, with one pacing
  delay between consecutive groups and none after the last: two delays, not three.
  For every work list the groups have one or two URLs, their concatenation is the
  work list, there are \<open>(n + 1) div 2\<close> groups for \<open>n\<close> URLs, and the number of pacing
  delays is the number of groups minus one.
\<close>

theorem groups_of_two_with_pacing_between:
  "(new_urls w listing = [u1, u2, u3, u4, u5]
      \<longrightarrow> download_videos w (Some listing) None
            = Inr [Gather [u1, u2], Pace RATE_LIMIT_DELAY, Gather [u3, u4],
                   Pace RATE_LIMIT_DELAY, Gather [u5]]
          \<and> length (pacing [Gather [u1, u2], Pace RATE_LIMIT_DELAY, Gather [u3, u4],
                   Pace RATE_LIMIT_DELAY, Gather [u5]]) = 2)
   \<and> concat (groups (batches urls 0)) = urls
   \<and> list_all (\<lambda>g. 1 \<le> length g \<and> length g \<le> MAX_CONCURRENT_DOWNLOADS)
        (groups (batches urls 0))
   \<and> length (groups (batches urls 0)) = (length urls + 1) div 2
   \<and> pacing (batches urls 0)
        = replicate (length (groups (batches urls 0)) - 1) RATE_LIMIT_DELAY"
  using batches_groups[of urls 0]
  by (auto simp: download_videos_def batches_five)

theorem groups_of_two_with_pacing_between_witness:
  "new_urls empty_world five_urls
     = [''http://h/1'', ''http://h/2'', ''http://h/3'', ''http://h/4'', ''http://h/5'']
   \<and> download_videos empty_world (Some five_urls) None
     = Inr [Gather [''http://h/1'', ''http://h/2''], Pace RATE_LIMIT_DELAY,
            Gather [''http://h/3'', ''http://h/4''], Pace RATE_LIMIT_DELAY, Gather [''http://h/5'']]
   \<and> length (groups (batches
        [''http://h/1'', ''http://h/2'', ''http://h/3'', ''http://h/4'', ''http://h/5''] 0)) = 3
   \<and> pacing (batches
        [''http://h/1'', ''http://h/2'', ''http://h/3'', ''http://h/4'', ''http://h/5''] 0)
      = [RATE_LIMIT_DELAY, RATE_LIMIT_DELAY]"
proof -
  note th = groups_of_two_with_pacing_between[of empty_world five_urls
      "''http://h/1''" "''http://h/2''" "''http://h/3''" "''http://h/4''" "''http://h/5''"
      "[''http://h/1'', ''http://h/2'', ''http://h/3'', ''http://h/4'', ''http://h/5'']"]
  have 3: "length (groups (batches
        [''http://h/1'', ''http://h/2'', ''http://h/3'', ''http://h/4'', ''http://h/5''] 0)) = 3"
    using th by simp
  have "pacing (batches
        [''http://h/1'', ''http://h/2'', ''http://h/3'', ''http://h/4'', ''http://h/5''] 0)
      = replicate (3 - 1) RATE_LIMIT_DELAY"
    using th unfolding 3 by blast
  then show ?thesis using th five_new 3 by (simp add: numeral_2_eq_2)
qed

text \<open>
  C8, as amended. For a file name that is not empty, has no leading or trailing
  whitespace (it is its own \<open>strip\<close>) and contains neither \<open>\n\<close> nor \<open>\r\<close>,
  \<open>mark_as_downloaded\<close> followed by \<open>get_downloaded_files\<close> yields the previous set with
  that name added. For every file name, marking it a second time leaves the set that
  \<open>get_downloaded_files\<close> returns unchanged.
\<close>

theorem ledger_round_trip:
  "(fn \<noteq> [] \<and> strip fn = fn \<and> LF \<notin> set fn \<and> CR \<notin> set fn
     \<longrightarrow> fn \<in> get_downloaded_files (mark_as_downloaded fn w)
       \<and> get_downloaded_files (mark_as_downloaded fn w) = insert fn (get_downloaded_files w))
   \<and> get_downloaded_files (mark_as_downloaded fn (mark_as_downloaded fn w))
       = get_downloaded_files (mark_as_downloaded fn w)"
  by (auto simp: get_downloaded_files_mark stripped_lines_name)

theorem ledger_round_trip_witness:
  "''a.mp4'' \<in> get_downloaded_files (mark_as_downloaded ''a.mp4'' empty_world)
   \<and> get_downloaded_files (mark_as_downloaded ''a.mp4'' empty_world) = {''a.mp4''}
   \<and> get_downloaded_files (mark_as_downloaded ''a.mp4'' (mark_as_downloaded ''a.mp4'' empty_world))
       = {''a.mp4''}"
proof -
  have h: "''a.mp4'' \<noteq> [] \<and> strip ''a.mp4'' = ''a.mp4'' \<and> LF \<notin> set ''a.mp4'' \<and> CR \<notin> set ''a.mp4''"
    by (simp add: strip_def is_space_def LF_def CR_def)
  have e: "get_downloaded_files empty_world = {}"
    by (simp add: get_downloaded_files_def empty_world_def)
  from ledger_round_trip[of "''a.mp4''" empty_world] h e show ?thesis by simp
qed

text \<open>
  C8 as stated fails: the name \<open>'' a''\<close> is not empty after stripping and contains no
  newline, yet after \<open>mark_as_downloaded\<close> the set read back holds \<open>''a''\<close> and not the
  name itself, because every line is stripped on reading.
\<close>

theorem ledger_round_trip_leading_space_counterexample:
  "strip '' a'' \<noteq> [] \<and> LF \<notin> set '' a''
   \<and> get_downloaded_files (mark_as_downloaded '' a'' empty_world) = {''a''}
   \<and> '' a'' \<notin> get_downloaded_files (mark_as_downloaded '' a'' empty_world)"
  by (simp add: get_downloaded_files_def mark_as_downloaded_def ledger_text_def empty_world_def
      stripped_lines_def read_text_lines_def strip_def is_space_def LF_def CR_def)

text \<open>
  C2, as amended. For the streaming loop of one attempt, started as the code starts
  it: if the throughput samples logged so far end with three consecutive samples below
  \<open>MIN_SPEED_BYTES_PER_SECOND\<close> while the expected size is known and larger than the
  bytes downloaded, the attempt has been aborted by the speed monitor. Conversely, an
  abort by the speed monitor happens only when the last sample is below the
  threshold, the stall counter is at least 3 and the expected size is known and not
  reached; the counter is shared with the progress monitor, so fewer than three low
  samples can suffice, and three consecutive low samples are necessary when the
  response declares no positive content length. When the expected size is unknown, no
  sequence of samples aborts the attempt, neither through the speed monitor nor
  through the progress monitor. The abort is an \<open>asyncio.TimeoutError\<close>, which the retry
  handler catches.
\<close>

theorem speed_stall_abort:
  assumes "read_loop fn ex tot evs (init_state t0) w = (r, s', w')"
  shows "(3 \<le> low_run (speeds_logged s') \<and> incomplete ex (downloaded s')
            \<longrightarrow> r = Some (TimeoutError SlowSpeed))
       \<and> (r = Some (TimeoutError SlowSpeed)
            \<longrightarrow> incomplete ex (downloaded s') \<and> 3 \<le> stall_count s'
                \<and> 1 \<le> low_run (speeds_logged s')
                \<and> (tot \<le> 0 \<longrightarrow> 3 \<le> low_run (speeds_logged s')))
       \<and> (ex = None \<longrightarrow> r \<noteq> Some (TimeoutError SlowSpeed) \<and> r \<noteq> Some (TimeoutError NoProgress))
       \<and> retryable (TimeoutError SlowSpeed)"
proof (intro conjI impI)
  note st = read_loop_stall[OF assms stall_inv_init]
  {
    assume a: "3 \<le> low_run (speeds_logged s') \<and> incomplete ex (downloaded s')"
    show "r = Some (TimeoutError SlowSpeed)"
    proof (rule ccontr)
      assume "r \<noteq> Some (TimeoutError SlowSpeed)"
      with st have "stall_inv ex s'" by blast
      with a show False unfolding stall_inv_def by blast
    qed
  }
  {
    assume b: "r = Some (TimeoutError SlowSpeed)"
    with st show "incomplete ex (downloaded s')" and c: "3 \<le> stall_count s'"
      and "1 \<le> low_run (speeds_logged s')"
      by blast+
    assume "tot \<le> 0"
    from read_loop_no_length[OF assms this]
    have "stall_count s' = low_run (speeds_logged s')"
      by (simp add: init_state_def low_run_Nil)
    with c show "3 \<le> low_run (speeds_logged s')" by simp
  }
  {
    assume n: "ex = None"
    have ni: "\<not> incomplete ex (downloaded s')" using n by (simp add: incomplete_def)
    with st show "r \<noteq> Some (TimeoutError SlowSpeed)" by blast
    from ni st show "r \<noteq> Some (TimeoutError NoProgress)" by blast
  }
  show "retryable (TimeoutError SlowSpeed)" by simp
qed

theorem speed_stall_abort_witness:
  "low_run (speeds_logged (fst (snd (read_loop ''a.mp4'' (Some 1000) 0 three_slow_reads
      (init_state 0) empty_world)))) = 3
   \<and> incomplete (Some 1000) (downloaded (fst (snd (read_loop ''a.mp4'' (Some 1000) 0
      three_slow_reads (init_state 0) empty_world))))
   \<and> fst (read_loop ''a.mp4'' (Some 1000) 0 three_slow_reads (init_state 0) empty_world)
      = Some (TimeoutError SlowSpeed)
   \<and> 3 \<le> stall_count (fst (snd (read_loop ''a.mp4'' (Some 1000) 0 three_slow_reads
      (init_state 0) empty_world)))
   \<and> low_run (speeds_logged (fst (snd (read_loop ''a.mp4'' None 0 three_slow_reads
      (init_state 0) empty_world)))) = 3
   \<and> fst (read_loop ''a.mp4'' None 0 three_slow_reads (init_state 0) empty_world) = None"
proof -
  let ?X = "read_loop ''a.mp4'' (Some 1000) 0 three_slow_reads (init_state 0) empty_world"
  let ?Y = "read_loop ''a.mp4'' None 0 three_slow_reads (init_state 0) empty_world"
  have x: "?X = (fst ?X, fst (snd ?X), snd (snd ?X))" by simp
  have y: "?Y = (fst ?Y, fst (snd ?Y), snd (snd ?Y))" by simp
  have h: "3 \<le> low_run (speeds_logged (fst (snd ?X)))
      \<and> incomplete (Some 1000) (downloaded (fst (snd ?X)))"
    by (simp add: three_slow_reads_known low_run_three incomplete_def)
  from speed_stall_abort[OF x] h
  have "fst ?X = Some (TimeoutError SlowSpeed)" "3 \<le> stall_count (fst (snd ?X))"
    by blast+
  moreover from speed_stall_abort[OF y]
  have "fst ?Y \<noteq> Some (TimeoutError SlowSpeed)" by blast
  ultimately show ?thesis
    using h by (simp add: three_slow_reads_known three_slow_reads_unknown low_run_three)
qed

text \<open>
  C2 as stated fails in the direction "only if": with expected size and content length
  1000, a first chunk after 1790 s gives one low sample, the chunk at 1801 s is
  counted by the progress monitor, and the low sample at 1850 s aborts the attempt
  with the counter at 3 after only two throughput samples.
\<close>

theorem speed_stall_abort_after_two_samples_counterexample:
  "fst (read_loop ''a.mp4'' (Some 1000) 1000 slow_then_stuck (init_state 0) empty_world)
     = Some (TimeoutError SlowSpeed)
   \<and> speeds_logged (fst (snd (read_loop ''a.mp4'' (Some 1000) 1000 slow_then_stuck
        (init_state 0) empty_world))) = [1 / 1790, 1 / 30]
   \<and> stall_count (fst (snd (read_loop ''a.mp4'' (Some 1000) 1000 slow_then_stuck
        (init_state 0) empty_world))) = 3"
  by (simp add: slow_then_stuck_def run_simps progress_percent_of_1000)

text \<open>
  C7, as amended. Whether or not the speed monitor took a sample at this chunk:
  when the response declared a positive content length, the integer percentage
  (\<open>int\<close> of the double that Python computes) has not grown and more than
  \<open>CHUNK_TIMEOUT\<close> seconds have passed since the last logged percentage, then the stall
  counter is incremented if the expected size is known and larger than the bytes
  downloaded, and the attempt aborts with \<open>asyncio.TimeoutError\<close> as soon as the counter
  is at least 3; if the expected size is unknown or reached, the counter is left alone
  and the loop goes on. An abort by the progress monitor only happens with a known,
  unreached expected size, a positive content length and the counter at 3 or more.
  The retry handler catches it as it catches every timeout.
\<close>

theorem progress_stall_signal:
  "(chunk \<noteq> []
      \<and> check_speed ex t1 (s\<lparr>downloaded := downloaded s + length chunk\<rparr>) = (None, s2)
      \<and> 0 < tot
      \<and> \<lfloor>progress_percent (downloaded s2) tot\<rfloor> \<le> \<lfloor>last_progress s2\<rfloor>
      \<and> t2 - last_progress_time s2 > CHUNK_TIMEOUT
    \<longrightarrow> read_loop fn ex tot (Chunk chunk t1 t2 # rest) s w =
          (if incomplete ex (downloaded s2) then
             (if 3 \<le> stall_count s2 + 1
              then (Some (TimeoutError NoProgress), s2\<lparr>stall_count := stall_count s2 + 1\<rparr>,
                    write_chunk fn chunk w)
              else read_loop fn ex tot rest (s2\<lparr>stall_count := stall_count s2 + 1\<rparr>)
                     (write_chunk fn chunk w))
           else read_loop fn ex tot rest s2 (write_chunk fn chunk w)))
   \<and> (read_loop fn ex tot evs (init_state t0) w0 = (Some (TimeoutError NoProgress), s', w')
    \<longrightarrow> incomplete ex (downloaded s') \<and> 3 \<le> stall_count s' \<and> 0 < tot)
   \<and> retryable (TimeoutError NoProgress)"
proof (intro conjI impI)
  assume a: "chunk \<noteq> []
      \<and> check_speed ex t1 (s\<lparr>downloaded := downloaded s + length chunk\<rparr>) = (None, s2)
      \<and> 0 < tot
      \<and> \<lfloor>progress_percent (downloaded s2) tot\<rfloor> \<le> \<lfloor>last_progress s2\<rfloor>
      \<and> t2 - last_progress_time s2 > CHUNK_TIMEOUT"
  then have cp: "check_progress ex tot t2 s2 =
      (if incomplete ex (downloaded s2) then
         (if 3 \<le> stall_count s2 + 1
          then (Some (TimeoutError NoProgress), s2\<lparr>stall_count := stall_count s2 + 1\<rparr>)
          else (None, s2\<lparr>stall_count := stall_count s2 + 1\<rparr>))
       else (None, s2))"
    by (simp add: check_progress_def Let_def)
  show "read_loop fn ex tot (Chunk chunk t1 t2 # rest) s w =
          (if incomplete ex (downloaded s2) then
             (if 3 \<le> stall_count s2 + 1
              then (Some (TimeoutError NoProgress), s2\<lparr>stall_count := stall_count s2 + 1\<rparr>,
                    write_chunk fn chunk w)
              else read_loop fn ex tot rest (s2\<lparr>stall_count := stall_count s2 + 1\<rparr>)
                     (write_chunk fn chunk w))
           else read_loop fn ex tot rest s2 (write_chunk fn chunk w))"
    using a by (simp add: Let_def cp)
next
  assume "read_loop fn ex tot evs (init_state t0) w0 = (Some (TimeoutError NoProgress), s', w')"
  from read_loop_stall[OF this stall_inv_init]
  show "incomplete ex (downloaded s')" "3 \<le> stall_count s'" "0 < tot"
    by blast+
next
  show "retryable (TimeoutError NoProgress)" by simp
qed

theorem progress_stall_signal_witness:
  "read_loop ''a.mp4'' (Some 1000) 1000 stuck_reads (init_state 0) empty_world
     = read_loop ''a.mp4'' (Some 1000) 1000 [Chunk ''b'' 1840 1840, Chunk ''c'' 1850 1850]
         \<lparr>downloaded = 1, last_speed_check = 1830, last_bytes_downloaded = 1,
          last_progress = 0, last_progress_time = 0, stall_count = 2,
          speeds_logged = [1 / 1830]\<rparr>
         (write_chunk ''a.mp4'' ''a'' empty_world)
   \<and> fst (read_loop ''a.mp4'' (Some 1000) 1000 stuck_reads (init_state 0) empty_world)
       = Some (TimeoutError NoProgress)
   \<and> stall_count (fst (snd (read_loop ''a.mp4'' (Some 1000) 1000 stuck_reads (init_state 0)
       empty_world))) = 3
   \<and> \<lfloor>progress_percent 29 100\<rfloor> = 28
   \<and> read_loop ''a.mp4'' (Some 100) 100 [Chunk ''x'' 1900 1900] after_28_of_100 empty_world
       = (None,
          \<lparr>downloaded = 29, last_speed_check = 1900, last_bytes_downloaded = 29,
           last_progress = progress_percent 28 100, last_progress_time = 10, stall_count = 2,
           speeds_logged = [29 / 1900]\<rparr>,
          write_chunk ''a.mp4'' ''x'' empty_world)"
proof -
  let ?s2 = "\<lparr>downloaded = 1, last_speed_check = 1830, last_bytes_downloaded = 1,
          last_progress = 0, last_progress_time = 0, stall_count = 1,
          speeds_logged = [1 / 1830]\<rparr>"
  have h: "''a'' \<noteq> []
      \<and> check_speed (Some 1000) 1830
           ((init_state 0)\<lparr>downloaded := downloaded (init_state 0) + length ''a''\<rparr>) = (None, ?s2)
      \<and> 0 < (1000::int)
      \<and> \<lfloor>progress_percent (downloaded ?s2) 1000\<rfloor> \<le> \<lfloor>last_progress ?s2\<rfloor>
      \<and> 1830 - last_progress_time ?s2 > CHUNK_TIMEOUT"
    using stuck_first_check by (simp add: CHUNK_TIMEOUT_def progress_percent_of_1000)
  have step: "read_loop ''a.mp4'' (Some 1000) 1000 stuck_reads (init_state 0) empty_world
     = read_loop ''a.mp4'' (Some 1000) 1000 [Chunk ''b'' 1840 1840, Chunk ''c'' 1850 1850]
         (?s2\<lparr>stall_count := 2\<rparr>) (write_chunk ''a.mp4'' ''a'' empty_world)"
    using progress_stall_signal[of "''a''" "Some 1000" 1830 "init_state 0" ?s2 1000 1830
        "''a.mp4''" "[Chunk ''b'' 1840 1840, Chunk ''c'' 1850 1850]" empty_world,
        THEN conjunct1, THEN mp, OF h]
    unfolding stuck_reads_def by (simp add: incomplete_def numeral_2_eq_2 del: read_loop.simps)
  have run: "fst (read_loop ''a.mp4'' (Some 1000) 1000 stuck_reads (init_state 0) empty_world)
       = Some (TimeoutError NoProgress)"
    "stall_count (fst (snd (read_loop ''a.mp4'' (Some 1000) 1000 stuck_reads (init_state 0)
       empty_world))) = 3"
    by (simp_all add: stuck_reads_def run_simps progress_percent_of_1000)
  let ?t2 = "\<lparr>downloaded = 29, last_speed_check = 1900, last_bytes_downloaded = 29,
          last_progress = progress_percent 28 100, last_progress_time = 10, stall_count = 1,
          speeds_logged = [29 / 1900]\<rparr>"
  have k: "''x'' \<noteq> []
      \<and> check_speed (Some 100) 1900
           (after_28_of_100\<lparr>downloaded := downloaded after_28_of_100 + length ''x''\<rparr>) = (None, ?t2)
      \<and> 0 < (100::int)
      \<and> \<lfloor>progress_percent (downloaded ?t2) 100\<rfloor> \<le> \<lfloor>last_progress ?t2\<rfloor>
      \<and> 1900 - last_progress_time ?t2 > CHUNK_TIMEOUT"
    using check_speed_at_29_of_100 by (simp add: CHUNK_TIMEOUT_def progress_percent_of_100)
  have float_case: "read_loop ''a.mp4'' (Some 100) 100 [Chunk ''x'' 1900 1900] after_28_of_100
       empty_world = (None, ?t2\<lparr>stall_count := 2\<rparr>, write_chunk ''a.mp4'' ''x'' empty_world)"
    using progress_stall_signal[of "''x''" "Some 100" 1900 after_28_of_100 ?t2 100 1900
        "''a.mp4''" "[]" empty_world, THEN conjunct1, THEN mp, OF k]
    by (simp add: incomplete_def numeral_2_eq_2 del: read_loop.simps(3))
  show ?thesis using step run float_case progress_percent_of_100(2) by simp
qed

text \<open>
  C7 as stated fails: with an unknown expected size and a content length of 10^12,
  three chunks of 1 MiB at 60 s, 100 s and 1801 s keep every throughput sample above
  the threshold; at 1801 s no percentage has been logged for more than
  \<open>CHUNK_TIMEOUT\<close> seconds, yet the stall counter stays 0 and the stream ends normally.
\<close>

theorem no_progress_unknown_size_counterexample:
  "fst (read_loop ''a.mp4'' None 1000000000000 fast_reads (init_state 0) empty_world) = None
   \<and> stall_count (fst (snd (read_loop ''a.mp4'' None 1000000000000 fast_reads (init_state 0)
        empty_world))) = 0
   \<and> last_progress_time (fst (snd (read_loop ''a.mp4'' None 1000000000000 fast_reads
        (init_state 0) empty_world))) = 0
   \<and> 1801 - 0 > CHUNK_TIMEOUT"
  by (simp add: fast_reads_def run_simps mebibyte_simps progress_percent_of_terabyte)

end
